theory Spec2Isabelle
  imports Complex_Main
begin

section \<open>Values and the object store\<close>

text \<open>
  The toolkit works on ESTree nodes: plain JavaScript objects that refer to one another.
  Object identity and in-place mutation matter (parent links, cloning), so the objects
  live in an explicit store. An address is the position of a cell in the store; a fresh
  object is appended at the end, and no cell is ever removed.

  A JavaScript number is represented by its mathematical value. The code under study
  only stores and copies numbers; the one place that prints a number (the template
  string of \<open>literalNode\<close>) takes the printing function as a parameter.
\<close>

type_synonym addr = nat

datatype jsval =
    Null
  | Undefined
  | Bool bool
  | Num real
  | Str string
  | Ref addr

text \<open>
  A plain object keeps its own enumerable properties in insertion order (the order of
  \<open>Object.keys\<close>); an array keeps its elements; a regular expression keeps
  pattern and flags.
\<close>

datatype cell =
    Object "(string \<times> jsval) list"
  | Array "jsval list"
  | RegExp string string

type_synonym heap = "cell list"

definition lookup :: "heap \<Rightarrow> addr \<Rightarrow> cell option" where
  "lookup h a = (if a < length h then Some (h ! a) else None)"

definition alloc :: "heap \<Rightarrow> cell \<Rightarrow> heap \<times> addr" where
  "alloc h c = (h @ [c], length h)"

text \<open>Reading a property that the object does not have yields \<open>undefined\<close>.\<close>

definition getProp :: "heap \<Rightarrow> addr \<Rightarrow> string \<Rightarrow> jsval" where
  "getProp h a k =
     (case lookup h a of
        Some (Object fs) \<Rightarrow> (case map_of fs k of Some v \<Rightarrow> v | None \<Rightarrow> Undefined)
      | _ \<Rightarrow> Undefined)"

definition hasProp :: "heap \<Rightarrow> addr \<Rightarrow> string \<Rightarrow> bool" where
  "hasProp h a k =
     (case lookup h a of
        Some (Object fs) \<Rightarrow> k \<in> set (map fst fs)
      | _ \<Rightarrow> False)"

text \<open>
  Assignment \<open>o[k] = v\<close>: an existing property is overwritten in place, a new one is
  added after the others.
\<close>

fun assign :: "(string \<times> jsval) list \<Rightarrow> string \<Rightarrow> jsval \<Rightarrow> (string \<times> jsval) list" where
  "assign [] k v = [(k, v)]"
| "assign ((k', v') # fs) k v = (if k' = k then (k, v) # fs else (k', v') # assign fs k v)"

definition setProp :: "heap \<Rightarrow> addr \<Rightarrow> string \<Rightarrow> jsval \<Rightarrow> heap" where
  "setProp h a k v =
     (case lookup h a of
        Some (Object fs) \<Rightarrow> h[a := Object (assign fs k v)]
      | _ \<Rightarrow> h)"

section \<open>NodeFactory\<close>

text \<open>
  Modelled from the spec: the enumeration \<open>NodeType\<close> (src/enums/node/NodeType.ts is
  not among the sources). Its members are the discriminant tags of the syntax
  constructs; the parser produces nodes whose \<open>type\<close> is the ESTree name of the
  construct, and the guards compare against the enumeration, so each member is the
  ESTree name.
\<close>

datatype NodeType =
    ArrayExpression | AssignmentExpression | BinaryExpression | BlockStatement
  | BreakStatement | CallExpression | ContinueStatement | ExpressionStatement
  | FunctionDeclaration | FunctionExpression | Identifier | IfStatement | Literal
  | LogicalExpression | MemberExpression | MethodDefinition | ObjectExpression
  | Program | Property | ReturnStatement | SwitchCase | SwitchStatement
  | UnaryExpression | UpdateExpression | VariableDeclaration | VariableDeclarator
  | WhileStatement

fun typeName :: "NodeType \<Rightarrow> string" where
  "typeName ArrayExpression = ''ArrayExpression''"
| "typeName AssignmentExpression = ''AssignmentExpression''"
| "typeName BinaryExpression = ''BinaryExpression''"
| "typeName BlockStatement = ''BlockStatement''"
| "typeName BreakStatement = ''BreakStatement''"
| "typeName CallExpression = ''CallExpression''"
| "typeName ContinueStatement = ''ContinueStatement''"
| "typeName ExpressionStatement = ''ExpressionStatement''"
| "typeName FunctionDeclaration = ''FunctionDeclaration''"
| "typeName FunctionExpression = ''FunctionExpression''"
| "typeName Identifier = ''Identifier''"
| "typeName IfStatement = ''IfStatement''"
| "typeName Literal = ''Literal''"
| "typeName LogicalExpression = ''LogicalExpression''"
| "typeName MemberExpression = ''MemberExpression''"
| "typeName MethodDefinition = ''MethodDefinition''"
| "typeName ObjectExpression = ''ObjectExpression''"
| "typeName Program = ''Program''"
| "typeName Property = ''Property''"
| "typeName ReturnStatement = ''ReturnStatement''"
| "typeName SwitchCase = ''SwitchCase''"
| "typeName SwitchStatement = ''SwitchStatement''"
| "typeName UnaryExpression = ''UnaryExpression''"
| "typeName UpdateExpression = ''UpdateExpression''"
| "typeName VariableDeclaration = ''VariableDeclaration''"
| "typeName VariableDeclarator = ''VariableDeclarator''"
| "typeName WhileStatement = ''WhileStatement''"

text \<open>
  Every constructor evaluates an object literal. The nested literal
  \<open>{ ignoredNode: false }\<close> is a fresh object each time; \<open>node\<close> allocates it
  and then the node whose last property, \<open>metadata\<close>, refers to it. The properties
  before \<open>metadata\<close> are passed in source order.
\<close>

definition node :: "heap \<Rightarrow> (string \<times> jsval) list \<Rightarrow> heap \<times> addr" where
  "node h props =
     (let (h1, m) = alloc h (Object [(''ignoredNode'', Bool False)])
      in alloc h1 (Object (props @ [(''metadata'', Ref m)])))"

text \<open>
  A parameter with the default \<open>[]\<close>: the default is evaluated, allocating a new empty
  array, exactly when the argument is \<open>undefined\<close>.
\<close>

definition defaultArray :: "heap \<Rightarrow> jsval \<Rightarrow> heap \<times> jsval" where
  "defaultArray h v =
     (if v = Undefined then (let (h1, a) = alloc h (Array []) in (h1, Ref a)) else (h, v))"

definition programNode :: "heap \<Rightarrow> jsval \<Rightarrow> heap \<times> addr" where
  "programNode h body =
     (let (h1, body1) = defaultArray h body
      in node h1 [(''type'', Str (typeName Program)), (''body'', body1),
                  (''sourceType'', Str ''script'')])"

definition arrayExpressionNode :: "heap \<Rightarrow> jsval \<Rightarrow> heap \<times> addr" where
  "arrayExpressionNode h elements =
     (let (h1, elements1) = defaultArray h elements
      in node h1 [(''type'', Str (typeName ArrayExpression)), (''elements'', elements1)])"

definition assignmentExpressionNode :: "heap \<Rightarrow> string \<Rightarrow> jsval \<Rightarrow> jsval \<Rightarrow> heap \<times> addr" where
  "assignmentExpressionNode h operator left right =
     node h [(''type'', Str (typeName AssignmentExpression)), (''operator'', Str operator),
             (''left'', left), (''right'', right)]"

definition binaryExpressionNode :: "heap \<Rightarrow> string \<Rightarrow> jsval \<Rightarrow> jsval \<Rightarrow> heap \<times> addr" where
  "binaryExpressionNode h operator left right =
     node h [(''type'', Str (typeName BinaryExpression)), (''operator'', Str operator),
             (''left'', left), (''right'', right)]"

definition blockStatementNode :: "heap \<Rightarrow> jsval \<Rightarrow> heap \<times> addr" where
  "blockStatementNode h body =
     (let (h1, body1) = defaultArray h body
      in node h1 [(''type'', Str (typeName BlockStatement)), (''body'', body1)])"

definition breakStatement :: "heap \<Rightarrow> jsval \<Rightarrow> heap \<times> addr" where
  "breakStatement h label =
     node h [(''type'', Str (typeName BreakStatement)), (''label'', label)]"

definition callExpressionNode :: "heap \<Rightarrow> jsval \<Rightarrow> jsval \<Rightarrow> heap \<times> addr" where
  "callExpressionNode h callee args =
     (let (h1, args1) = defaultArray h args
      in node h1 [(''type'', Str (typeName CallExpression)), (''callee'', callee),
                  (''arguments'', args1)])"

definition continueStatement :: "heap \<Rightarrow> jsval \<Rightarrow> heap \<times> addr" where
  "continueStatement h label =
     node h [(''type'', Str (typeName ContinueStatement)), (''label'', label)]"

definition expressionStatementNode :: "heap \<Rightarrow> jsval \<Rightarrow> heap \<times> addr" where
  "expressionStatementNode h expression =
     node h [(''type'', Str (typeName ExpressionStatement)), (''expression'', expression)]"

definition identifierNode :: "heap \<Rightarrow> string \<Rightarrow> heap \<times> addr" where
  "identifierNode h name =
     node h [(''type'', Str (typeName Identifier)), (''name'', Str name)]"

definition functionDeclarationNode :: "heap \<Rightarrow> string \<Rightarrow> jsval \<Rightarrow> jsval \<Rightarrow> heap \<times> addr" where
  "functionDeclarationNode h functionName params body =
     (let (h1, ident) = identifierNode h functionName
      in node h1 [(''type'', Str (typeName FunctionDeclaration)), (''id'', Ref ident),
                  (''params'', params), (''body'', body), (''generator'', Bool False)])"

definition functionExpressionNode :: "heap \<Rightarrow> jsval \<Rightarrow> jsval \<Rightarrow> heap \<times> addr" where
  "functionExpressionNode h params body =
     node h [(''type'', Str (typeName FunctionExpression)), (''params'', params),
             (''body'', body), (''generator'', Bool False)]"

text \<open>
  \<open>...alternate && { alternate }\<close>: when \<open>alternate\<close> is truthy the expression is the
  object \<open>{ alternate }\<close>, whose one property is spread into the node; when it is falsy
  the expression is \<open>alternate\<close> itself, and spreading a falsy value adds nothing.
\<close>

fun truthy :: "jsval \<Rightarrow> bool" where
  "truthy Null = False"
| "truthy Undefined = False"
| "truthy (Bool b) = b"
| "truthy (Num n) = (n \<noteq> 0)"
| "truthy (Str s) = (s \<noteq> [])"
| "truthy (Ref a) = True"

definition ifStatementNode :: "heap \<Rightarrow> jsval \<Rightarrow> jsval \<Rightarrow> jsval \<Rightarrow> heap \<times> addr" where
  "ifStatementNode h test consequent alternate =
     node h ([(''type'', Str (typeName IfStatement)), (''test'', test),
              (''consequent'', consequent)]
             @ (if truthy alternate then [(''alternate'', alternate)] else []))"

text \<open>
  \<open>literalNode (value: boolean | number | string, raw?: string)\<close>. The template string
  \<open>`'${value}'`\<close> applies ToString to the value. Printing a number is the language
  runtime's \<open>Number::toString\<close>, taken as the parameter \<open>numberToString\<close>.
  \<open>escodegen.Precedence.Primary\<close> is a constant of the external code generator, taken
  as the parameter \<open>primary\<close>.
\<close>

datatype primitive = PBool bool | PNum real | PStr string

fun primitiveValue :: "primitive \<Rightarrow> jsval" where
  "primitiveValue (PBool b) = Bool b"
| "primitiveValue (PNum n) = Num n"
| "primitiveValue (PStr s) = Str s"

fun toString :: "(real \<Rightarrow> string) \<Rightarrow> primitive \<Rightarrow> string" where
  "toString numberToString (PBool b) = (if b then ''true'' else ''false'')"
| "toString numberToString (PNum n) = numberToString n"
| "toString numberToString (PStr s) = s"

definition literalNode ::
  "(real \<Rightarrow> string) \<Rightarrow> jsval \<Rightarrow> heap \<Rightarrow> primitive \<Rightarrow> string option \<Rightarrow> heap \<times> addr" where
  "literalNode numberToString primary h val raw =
     (let raw1 = (case raw of Some r \<Rightarrow> r
                  | None \<Rightarrow> [CHR 0x27] @ toString numberToString val @ [CHR 0x27]);
          (h1, x) = alloc h (Object [(''content'', Str raw1), (''precedence'', primary)])
      in node h1 [(''type'', Str (typeName Literal)), (''value'', primitiveValue val),
                  (''raw'', Str raw1), (''x-verbatim-property'', Ref x)])"

definition logicalExpressionNode :: "heap \<Rightarrow> string \<Rightarrow> jsval \<Rightarrow> jsval \<Rightarrow> heap \<times> addr" where
  "logicalExpressionNode h operator left right =
     node h [(''type'', Str (typeName LogicalExpression)), (''operator'', Str operator),
             (''left'', left), (''right'', right)]"

definition memberExpressionNode :: "heap \<Rightarrow> jsval \<Rightarrow> jsval \<Rightarrow> bool option \<Rightarrow> heap \<times> addr" where
  "memberExpressionNode h object property computed =
     (let computed1 = (case computed of None \<Rightarrow> False | Some c \<Rightarrow> c)
      in node h [(''type'', Str (typeName MemberExpression)), (''computed'', Bool computed1),
                 (''object'', object), (''property'', property)])"

definition methodDefinitionNode :: "heap \<Rightarrow> jsval \<Rightarrow> jsval \<Rightarrow> string \<Rightarrow> bool \<Rightarrow> heap \<times> addr" where
  "methodDefinitionNode h key val kind computed =
     node h [(''type'', Str (typeName MethodDefinition)), (''key'', key), (''value'', val),
             (''kind'', Str kind), (''computed'', Bool computed), (''static'', Bool False)]"

definition objectExpressionNode :: "heap \<Rightarrow> jsval \<Rightarrow> heap \<times> addr" where
  "objectExpressionNode h properties =
     node h [(''type'', Str (typeName ObjectExpression)), (''properties'', properties)]"

definition propertyNode :: "heap \<Rightarrow> jsval \<Rightarrow> jsval \<Rightarrow> bool option \<Rightarrow> heap \<times> addr" where
  "propertyNode h key val computed =
     (let computed1 = (case computed of None \<Rightarrow> False | Some c \<Rightarrow> c)
      in node h [(''type'', Str (typeName Property)), (''key'', key), (''value'', val),
                 (''kind'', Str ''init''), (''method'', Bool False), (''shorthand'', Bool False),
                 (''computed'', Bool computed1)])"

definition returnStatementNode :: "heap \<Rightarrow> jsval \<Rightarrow> heap \<times> addr" where
  "returnStatementNode h argument =
     node h [(''type'', Str (typeName ReturnStatement)), (''argument'', argument)]"

definition switchStatementNode :: "heap \<Rightarrow> jsval \<Rightarrow> jsval \<Rightarrow> heap \<times> addr" where
  "switchStatementNode h discriminant cases =
     node h [(''type'', Str (typeName SwitchStatement)), (''discriminant'', discriminant),
             (''cases'', cases)]"

definition switchCaseNode :: "heap \<Rightarrow> jsval \<Rightarrow> jsval \<Rightarrow> heap \<times> addr" where
  "switchCaseNode h test consequent =
     node h [(''type'', Str (typeName SwitchCase)), (''test'', test),
             (''consequent'', consequent)]"

definition unaryExpressionNode :: "heap \<Rightarrow> string \<Rightarrow> jsval \<Rightarrow> bool option \<Rightarrow> heap \<times> addr" where
  "unaryExpressionNode h operator argument prefix =
     (let prefix1 = (case prefix of None \<Rightarrow> True | Some p \<Rightarrow> p)
      in node h [(''type'', Str (typeName UnaryExpression)), (''operator'', Str operator),
                 (''argument'', argument), (''prefix'', Bool prefix1)])"

definition updateExpressionNode :: "heap \<Rightarrow> string \<Rightarrow> jsval \<Rightarrow> heap \<times> addr" where
  "updateExpressionNode h operator argumentExpr =
     node h [(''type'', Str (typeName UpdateExpression)), (''operator'', Str operator),
             (''argument'', argumentExpr), (''prefix'', Bool False)]"

definition variableDeclarationNode :: "heap \<Rightarrow> jsval \<Rightarrow> string option \<Rightarrow> heap \<times> addr" where
  "variableDeclarationNode h declarations kind =
     (let (h1, declarations1) = defaultArray h declarations;
          kind1 = (case kind of None \<Rightarrow> ''var'' | Some k \<Rightarrow> k)
      in node h1 [(''type'', Str (typeName VariableDeclaration)),
                  (''declarations'', declarations1), (''kind'', Str kind1)])"

definition variableDeclaratorNode :: "heap \<Rightarrow> jsval \<Rightarrow> jsval \<Rightarrow> heap \<times> addr" where
  "variableDeclaratorNode h ident init =
     node h [(''type'', Str (typeName VariableDeclarator)), (''id'', ident), (''init'', init)]"

definition whileStatementNode :: "heap \<Rightarrow> jsval \<Rightarrow> jsval \<Rightarrow> heap \<times> addr" where
  "whileStatementNode h test body =
     node h [(''type'', Str (typeName WhileStatement)), (''test'', test), (''body'', body)]"

text \<open>
  One value per way of calling the factory, so that a statement can range over every
  constructor and every choice of its arguments.
\<close>

datatype factoryCall =
    CallProgramNode jsval
  | CallArrayExpressionNode jsval
  | CallAssignmentExpressionNode string jsval jsval
  | CallBinaryExpressionNode string jsval jsval
  | CallBlockStatementNode jsval
  | CallBreakStatement jsval
  | CallCallExpressionNode jsval jsval
  | CallContinueStatement jsval
  | CallExpressionStatementNode jsval
  | CallFunctionDeclarationNode string jsval jsval
  | CallFunctionExpressionNode jsval jsval
  | CallIfStatementNode jsval jsval jsval
  | CallIdentifierNode string
  | CallLiteralNode primitive "string option"
  | CallLogicalExpressionNode string jsval jsval
  | CallMemberExpressionNode jsval jsval "bool option"
  | CallMethodDefinitionNode jsval jsval string bool
  | CallObjectExpressionNode jsval
  | CallPropertyNode jsval jsval "bool option"
  | CallReturnStatementNode jsval
  | CallSwitchStatementNode jsval jsval
  | CallSwitchCaseNode jsval jsval
  | CallUnaryExpressionNode string jsval "bool option"
  | CallUpdateExpressionNode string jsval
  | CallVariableDeclarationNode jsval "string option"
  | CallVariableDeclaratorNode jsval jsval
  | CallWhileStatementNode jsval jsval

fun factory :: "(real \<Rightarrow> string) \<Rightarrow> jsval \<Rightarrow> heap \<Rightarrow> factoryCall \<Rightarrow> heap \<times> addr" where
  "factory nts prim h (CallProgramNode body) = programNode h body"
| "factory nts prim h (CallArrayExpressionNode elements) = arrayExpressionNode h elements"
| "factory nts prim h (CallAssignmentExpressionNode operator left right) =
     assignmentExpressionNode h operator left right"
| "factory nts prim h (CallBinaryExpressionNode operator left right) =
     binaryExpressionNode h operator left right"
| "factory nts prim h (CallBlockStatementNode body) = blockStatementNode h body"
| "factory nts prim h (CallBreakStatement label) = breakStatement h label"
| "factory nts prim h (CallCallExpressionNode callee args) = callExpressionNode h callee args"
| "factory nts prim h (CallContinueStatement label) = continueStatement h label"
| "factory nts prim h (CallExpressionStatementNode expression) =
     expressionStatementNode h expression"
| "factory nts prim h (CallFunctionDeclarationNode functionName params body) =
     functionDeclarationNode h functionName params body"
| "factory nts prim h (CallFunctionExpressionNode params body) =
     functionExpressionNode h params body"
| "factory nts prim h (CallIfStatementNode test consequent alternate) =
     ifStatementNode h test consequent alternate"
| "factory nts prim h (CallIdentifierNode name) = identifierNode h name"
| "factory nts prim h (CallLiteralNode val raw) = literalNode nts prim h val raw"
| "factory nts prim h (CallLogicalExpressionNode operator left right) =
     logicalExpressionNode h operator left right"
| "factory nts prim h (CallMemberExpressionNode object property computed) =
     memberExpressionNode h object property computed"
| "factory nts prim h (CallMethodDefinitionNode key val kind computed) =
     methodDefinitionNode h key val kind computed"
| "factory nts prim h (CallObjectExpressionNode properties) = objectExpressionNode h properties"
| "factory nts prim h (CallPropertyNode key val computed) = propertyNode h key val computed"
| "factory nts prim h (CallReturnStatementNode argument) = returnStatementNode h argument"
| "factory nts prim h (CallSwitchStatementNode discriminant cases) =
     switchStatementNode h discriminant cases"
| "factory nts prim h (CallSwitchCaseNode test consequent) = switchCaseNode h test consequent"
| "factory nts prim h (CallUnaryExpressionNode operator argument prefix) =
     unaryExpressionNode h operator argument prefix"
| "factory nts prim h (CallUpdateExpressionNode operator argumentExpr) =
     updateExpressionNode h operator argumentExpr"
| "factory nts prim h (CallVariableDeclarationNode declarations kind) =
     variableDeclarationNode h declarations kind"
| "factory nts prim h (CallVariableDeclaratorNode ident init) =
     variableDeclaratorNode h ident init"
| "factory nts prim h (CallWhileStatementNode test body) = whileStatementNode h test body"

text \<open>
  What every constructor promises of the node it returns: its \<open>metadata\<close> is an
  object whose \<open>ignoredNode\<close> is \<open>false\<close>, and it has no \<open>parentNode\<close>.
\<close>

definition complete :: "heap \<times> addr \<Rightarrow> bool" where
  "complete r = (case r of (h, n) \<Rightarrow>
     (\<exists>m. getProp h n ''metadata'' = Ref m \<and> getProp h m ''ignoredNode'' = Bool False)
     \<and> \<not> hasProp h n ''parentNode'')"

section \<open>Outcomes\<close>

text \<open>
  A call returns a value, throws, or does not come back within the bound the model was
  given. The bound counts nested activations: the two recursive functions of
  \<open>NodeUtils\<close> follow references through the store, and the tree walk follows child
  properties, so neither terminates on every store (a property chain can lead back to
  its own start). \<open>Exhausted\<close> says that the bound was reached; a statement that a
  call returns is proved as such, for every bound above an explicit one.
\<close>

datatype error = TypeError | SyntaxError string

datatype 'a outcome = Returns 'a | Throws error | Exhausted

section \<open>Guards and metadata\<close>

text \<open>
  Reading a property of an arbitrary value. \<open>null\<close> and \<open>undefined\<close> have no
  properties and the read throws a TypeError; a primitive has none of the properties
  read here (\<open>type\<close>, \<open>argument\<close>), so the read yields \<open>undefined\<close>.
\<close>

fun readProp :: "heap \<Rightarrow> jsval \<Rightarrow> string \<Rightarrow> error + jsval" where
  "readProp h Null k = Inl TypeError"
| "readProp h Undefined k = Inl TypeError"
| "readProp h (Ref a) k = Inr (getProp h a k)"
| "readProp h v k = Inr Undefined"

text \<open>
  Modelled from the spec: the guards of \<open>NodeGuards\<close> (src/node/NodeGuards.ts is not
  among the sources). A guard tells the kind of a node by its discriminant tag:
  \<open>node.type === NodeType.X\<close>.
\<close>

definition hasType :: "heap \<Rightarrow> jsval \<Rightarrow> NodeType \<Rightarrow> error + bool" where
  "hasType h v t =
     (case readProp h v ''type'' of
        Inl e \<Rightarrow> Inl e
      | Inr ty \<Rightarrow> Inr (ty = Str (typeName t)))"

definition isLiteralNode :: "heap \<Rightarrow> jsval \<Rightarrow> error + bool" where
  "isLiteralNode h v = hasType h v Literal"

definition isUnaryExpressionNode :: "heap \<Rightarrow> jsval \<Rightarrow> error + bool" where
  "isUnaryExpressionNode h v = hasType h v UnaryExpression"

text \<open>
  Modelled from the spec: \<open>NodeMetadata.set\<close> (src/node/NodeMetadata.ts is not among
  the sources). The converter's step (3), "set \<open>metadata = { ignoredNode: false }\<close>":
  the node's \<open>metadata\<close> becomes a new object with the given flags.
\<close>

definition NodeMetadata_set :: "heap \<Rightarrow> addr \<Rightarrow> (string \<times> jsval) list \<Rightarrow> heap" where
  "NodeMetadata_set h n metadata =
     (let (h1, m) = alloc h (Object metadata) in setProp h1 n ''metadata'' (Ref m))"

section \<open>NodeUtils\<close>

subsection \<open>addXVerbatimPropertyTo\<close>

definition addXVerbatimPropertyTo :: "jsval \<Rightarrow> heap \<Rightarrow> addr \<Rightarrow> heap \<times> addr" where
  "addXVerbatimPropertyTo primary h literal =
     (let (h1, x) = alloc h (Object [(''content'', getProp h literal ''raw''),
                                     (''precedence'', primary)])
      in (setProp h1 literal ''x-verbatim-property'' (Ref x), literal))"

subsection \<open>getUnaryExpressionArgumentNode\<close>

text \<open>
  The function calls itself on the argument for as long as the argument is a unary
  expression; \<open>d\<close> bounds the nesting of the calls.
\<close>

fun getUnaryExpressionArgumentNode :: "nat \<Rightarrow> heap \<Rightarrow> jsval \<Rightarrow> jsval outcome" where
  "getUnaryExpressionArgumentNode 0 h unaryNode = Exhausted"
| "getUnaryExpressionArgumentNode (Suc d) h unaryNode =
     (case readProp h unaryNode ''argument'' of
        Inl e \<Rightarrow> Throws e
      | Inr argument \<Rightarrow>
          (case isUnaryExpressionNode h argument of
             Inl e \<Rightarrow> Throws e
           | Inr True \<Rightarrow> getUnaryExpressionArgumentNode d h argument
           | Inr False \<Rightarrow> Returns argument))"

text \<open>
  The chain of a unary expression, in the words of the specification: \<open>unwraps h k u v\<close>
  when \<open>v\<close> is reached from \<open>u\<close> by following \<open>argument\<close> through \<open>k\<close> nested
  unary expressions and \<open>v\<close> is the first argument that is not a unary expression.
\<close>

inductive unwraps :: "heap \<Rightarrow> nat \<Rightarrow> jsval \<Rightarrow> jsval \<Rightarrow> bool" for h :: heap where
  innermost:
    "readProp h u ''argument'' = Inr v \<Longrightarrow> isUnaryExpressionNode h v = Inr False
       \<Longrightarrow> unwraps h 0 u v"
| nested:
    "readProp h u ''argument'' = Inr w \<Longrightarrow> isUnaryExpressionNode h w = Inr True
       \<Longrightarrow> unwraps h k w v \<Longrightarrow> unwraps h (Suc k) u v"

text \<open>The expression \<open>!!!x\<close>, built with the factory in an empty store.\<close>

definition tripleNegation :: "heap \<times> addr" where
  "tripleNegation =
     (let (h1, x) = identifierNode [] ''x'';
          (h2, n1) = unaryExpressionNode h1 ''!'' (Ref x) None;
          (h3, n2) = unaryExpressionNode h2 ''!'' (Ref n1) None
      in unaryExpressionNode h3 ''!'' (Ref n2) None)"

subsection \<open>parentizeNode\<close>

text \<open>\<open>node.parentNode = parentNode || node\<close>, with \<open>parentNode: Node | null\<close>.\<close>

definition parentizeNode :: "heap \<Rightarrow> addr \<Rightarrow> addr option \<Rightarrow> heap \<times> addr" where
  "parentizeNode h n parentNode =
     (setProp h n ''parentNode'' (Ref (case parentNode of Some p \<Rightarrow> p | None \<Rightarrow> n)), n)"

subsection \<open>The tree walk\<close>

text \<open>
  Modelled from the spec: the external tree-walking engine (\<open>estraverse.replace\<close>),
  "\<open>walk(tree, visit(node, parent) -> replacementNode)\<close>", which visits every node
  once, parents before children and children in order, and supplies the direct parent,
  or null for the root, at each visit.

  Which properties of a node hold its children is the engine's table of visitor keys,
  the parameter \<open>keys\<close>: it maps the tag of a node to the names of its child
  properties. A child property holds a node or a sequence of nodes; a node is an object
  with a string \<open>type\<close>, and anything else found there is passed over. The children
  of a node are read when the walk has entered it. The walk goes on with the node the
  callback returned. The engine also stores that node in the place where it found the
  visited one; both callbacks of \<open>NodeUtils\<close> return the node they were given, for
  which the store is left as it is, and the model does not write it.
\<close>

definition nodeTag :: "heap \<Rightarrow> addr \<Rightarrow> string option" where
  "nodeTag h a = (case getProp h a ''type'' of Str t \<Rightarrow> Some t | _ \<Rightarrow> None)"

definition isNode :: "heap \<Rightarrow> jsval \<Rightarrow> bool" where
  "isNode h v = (case v of Ref a \<Rightarrow> nodeTag h a \<noteq> None | _ \<Rightarrow> False)"

fun refsOf :: "jsval list \<Rightarrow> addr list" where
  "refsOf [] = []"
| "refsOf (Ref a # vs) = a # refsOf vs"
| "refsOf (v # vs) = refsOf vs"

definition candidates :: "heap \<Rightarrow> addr \<Rightarrow> string \<Rightarrow> addr list" where
  "candidates h n k =
     (case getProp h n k of
        Ref b \<Rightarrow>
          (case lookup h b of
             Some (Array xs) \<Rightarrow> refsOf (filter (isNode h) xs)
           | _ \<Rightarrow> if isNode h (Ref b) then [b] else [])
      | _ \<Rightarrow> [])"

definition childrenOf :: "(string \<Rightarrow> string list) \<Rightarrow> heap \<Rightarrow> addr \<Rightarrow> addr list" where
  "childrenOf keys h n =
     (case nodeTag h n of
        None \<Rightarrow> []
      | Some t \<Rightarrow> concat (map (candidates h n) (keys t)))"

fun walkAll :: "(heap \<Rightarrow> addr \<Rightarrow> heap outcome) \<Rightarrow> heap \<Rightarrow> addr list \<Rightarrow> heap outcome" where
  "walkAll f h [] = Returns h"
| "walkAll f h (c # cs) =
     (case f h c of
        Returns h1 \<Rightarrow> walkAll f h1 cs
      | Throws e \<Rightarrow> Throws e
      | Exhausted \<Rightarrow> Exhausted)"

primrec replace ::
  "nat \<Rightarrow> (string \<Rightarrow> string list) \<Rightarrow> (heap \<Rightarrow> addr \<Rightarrow> addr option \<Rightarrow> heap \<times> addr)
     \<Rightarrow> heap \<Rightarrow> addr \<Rightarrow> addr option \<Rightarrow> heap outcome" where
  "replace 0 keys enter = (\<lambda>h n parent. Exhausted)"
| "replace (Suc d) keys enter = (\<lambda>h n parent.
     (let (h1, target) = enter h n parent
      in walkAll (\<lambda>h2 c. replace d keys enter h2 c (Some target)) h1
           (childrenOf keys h1 target)))"

subsection \<open>parentizeAst\<close>

definition parentizeAst ::
  "nat \<Rightarrow> (string \<Rightarrow> string list) \<Rightarrow> heap \<Rightarrow> addr \<Rightarrow> (heap \<times> addr) outcome" where
  "parentizeAst d keys h astTree =
     (case replace d keys parentizeNode h astTree None of
        Returns h1 \<Rightarrow> Returns (h1, astTree)
      | Throws e \<Rightarrow> Throws e
      | Exhausted \<Rightarrow> Exhausted)"

subsection \<open>convertCodeToStructure\<close>

text \<open>
  The parser (\<open>espree.parse\<close>) is external: the parameter \<open>parse\<close> either throws or
  builds the program tree in the store and returns its root.
\<close>

definition enterNode :: "jsval \<Rightarrow> heap \<Rightarrow> addr \<Rightarrow> addr option \<Rightarrow> heap \<times> addr" where
  "enterNode primary h n parentNode =
     (let (h1, n1) = parentizeNode h n parentNode;
          h2 = (if isLiteralNode h1 (Ref n) = Inr True
                then fst (addXVerbatimPropertyTo primary h1 n) else h1);
          h3 = NodeMetadata_set h2 n [(''ignoredNode'', Bool False)]
      in (h3, n))"

definition convertCodeToStructure ::
  "nat \<Rightarrow> (string \<Rightarrow> heap \<Rightarrow> error + heap \<times> addr) \<Rightarrow> (string \<Rightarrow> string list) \<Rightarrow> jsval
     \<Rightarrow> heap \<Rightarrow> string \<Rightarrow> (heap \<times> jsval) outcome" where
  "convertCodeToStructure d parse keys primary h code =
     (case parse code h of
        Inl e \<Rightarrow> Throws e
      | Inr (h1, structure) \<Rightarrow>
          (case replace d keys (enterNode primary) h1 structure None of
             Returns h2 \<Rightarrow> Returns (h2, getProp h2 structure ''body'')
           | Throws e \<Rightarrow> Throws e
           | Exhausted \<Rightarrow> Exhausted))"

subsection \<open>convertStructureToCode\<close>

text \<open>
  The code generator (\<open>escodegen.generate\<close>) is external. Of its options the model
  keeps \<open>sourceMapWithCode\<close>, the one the call sets, and \<open>verbatim\<close>, which
  would name the property holding a node's verbatim annotation and which the call
  leaves unset. The parameter \<open>generate\<close> stands for
  \<open>(options, node) \<mapsto> escodegen.generate(node, options).code\<close>; the call is
  \<open>escodegen.generate(node, { sourceMapWithCode: true }).code\<close>. The reduction starts
  from the empty string and appends the text of each node in turn.
\<close>

record generateOptions =
  verbatim :: "string option"
  sourceMapWithCode :: bool

definition convertStructureToCode ::
  "(generateOptions \<Rightarrow> heap \<Rightarrow> jsval \<Rightarrow> string) \<Rightarrow> heap \<Rightarrow> jsval list \<Rightarrow> string" where
  "convertStructureToCode generate h structure =
     foldl (\<lambda>code node.
              code @ generate \<lparr>verbatim = None, sourceMapWithCode = True\<rparr> h node)
       [] structure"

text \<open>
  A generator for the two kinds of node of the examples, a number literal and an
  expression statement holding one, with the verbatim extension of the external
  generator: when the option \<open>verbatim\<close> names a property and the node has it, an
  object with a string \<open>content\<close>, the text of the node is that content; otherwise
  the literal is printed from its value, by the runtime's printing of numbers
  \<open>numberToString\<close>. An expression statement is its expression and a semicolon.
\<close>

definition annotation :: "generateOptions \<Rightarrow> heap \<Rightarrow> addr \<Rightarrow> string option" where
  "annotation options h n =
     (case verbatim options of
        None \<Rightarrow> None
      | Some k \<Rightarrow>
          (case getProp h n k of
             Ref x \<Rightarrow> (case getProp h x ''content'' of Str c \<Rightarrow> Some c | _ \<Rightarrow> None)
           | _ \<Rightarrow> None))"

definition sampleExpression ::
  "(real \<Rightarrow> string) \<Rightarrow> generateOptions \<Rightarrow> heap \<Rightarrow> jsval \<Rightarrow> string" where
  "sampleExpression numberToString options h v =
     (case v of
        Ref n \<Rightarrow>
          (case annotation options h n of
             Some c \<Rightarrow> c
           | None \<Rightarrow> (case getProp h n ''value'' of Num v \<Rightarrow> numberToString v | _ \<Rightarrow> []))
      | _ \<Rightarrow> [])"

definition sampleGenerate ::
  "(real \<Rightarrow> string) \<Rightarrow> generateOptions \<Rightarrow> heap \<Rightarrow> jsval \<Rightarrow> string" where
  "sampleGenerate numberToString options h v =
     (case v of
        Ref n \<Rightarrow>
          if getProp h n ''type'' = Str ''ExpressionStatement''
          then sampleExpression numberToString options h (getProp h n ''expression'') @ '';''
          else sampleExpression numberToString options h v
      | _ \<Rightarrow> [])"

text \<open>
  The nodes of a tree in the order of the walk, each with the parent the walk supplies,
  given the children of every node. \<open>None\<close> when the child properties do not end
  within \<open>d\<close> levels. A store holds a tree below \<open>r\<close> when this list exists and no
  node occurs in it twice.
\<close>

primrec visits ::
  "nat \<Rightarrow> (addr \<Rightarrow> addr list) \<Rightarrow> addr \<Rightarrow> addr option \<Rightarrow> (addr \<times> addr option) list option" where
  "visits 0 ch = (\<lambda>n p. None)"
| "visits (Suc d) ch = (\<lambda>n p.
     (case those (map (\<lambda>c. visits d ch c (Some n)) (ch n)) of
        None \<Rightarrow> None
      | Some vss \<Rightarrow> Some ((n, p) # concat vss)))"

definition isObject :: "heap \<Rightarrow> addr \<Rightarrow> bool" where
  "isObject h a = (case lookup h a of Some (Object fs) \<Rightarrow> True | _ \<Rightarrow> False)"

text \<open>
  Two notions for reasoning about a walk. A callback is \<open>modest\<close> when, entering an
  object, it returns that object, changes no other cell that existed, keeps every
  object an object and keeps the children of every node. \<open>walked\<close> relates the store
  before a walk over the visits \<open>vs\<close> to the store after it: cells outside the
  visited nodes are as before, and each visited node, with the cells allocated at its
  visit, is as the callback left it when it entered the node in a store where the node
  was still as at the start.
\<close>

definition modest ::
  "(string \<Rightarrow> string list) \<Rightarrow> (heap \<Rightarrow> addr \<Rightarrow> addr option \<Rightarrow> heap \<times> addr) \<Rightarrow> bool" where
  "modest keys enter =
     (\<forall>h n p. isObject h n \<longrightarrow>
        snd (enter h n p) = n
      \<and> length h \<le> length (fst (enter h n p))
      \<and> (\<forall>a < length h. a \<noteq> n \<longrightarrow> fst (enter h n p) ! a = h ! a)
      \<and> (\<forall>a. childrenOf keys (fst (enter h n p)) a = childrenOf keys h a)
      \<and> (\<forall>a. isObject h a \<longrightarrow> isObject (fst (enter h n p)) a))"

definition walked ::
  "(string \<Rightarrow> string list) \<Rightarrow> (heap \<Rightarrow> addr \<Rightarrow> addr option \<Rightarrow> heap \<times> addr)
     \<Rightarrow> heap \<Rightarrow> (addr \<times> addr option) list \<Rightarrow> heap \<Rightarrow> bool" where
  "walked keys enter h vs h' =
     (length h \<le> length h'
    \<and> (\<forall>a < length h. a \<notin> fst ` set vs \<longrightarrow> h' ! a = h ! a)
    \<and> (\<forall>a. childrenOf keys h' a = childrenOf keys h a)
    \<and> (\<forall>a. isObject h a \<longrightarrow> isObject h' a)
    \<and> (\<forall>(a, q) \<in> set vs. \<exists>ha.
          length h \<le> length ha \<and> ha ! a = h ! a
        \<and> length (fst (enter ha a q)) \<le> length h'
        \<and> (\<forall>b. (b = a \<or> length ha \<le> b) \<and> b < length (fst (enter ha a q))
               \<longrightarrow> h' ! b = fst (enter ha a q) ! b)))"

text \<open>
  What one step of a callback on the node \<open>n\<close> may do to the store, so that the
  children of every node stay the same: cells are only added, no cell but \<open>n\<close>
  changes, the \<open>type\<close> of everything and the child properties of every node are
  kept, arrays stay the arrays they were and objects stay objects.
\<close>

definition step :: "(string \<Rightarrow> string list) \<Rightarrow> addr \<Rightarrow> heap \<Rightarrow> heap \<Rightarrow> bool" where
  "step keys n h h' =
     (length h \<le> length h'
    \<and> (\<forall>a < length h. a \<noteq> n \<longrightarrow> h' ! a = h ! a)
    \<and> (\<forall>a. getProp h' a ''type'' = getProp h a ''type'')
    \<and> (\<forall>a k t. nodeTag h a \<noteq> None \<longrightarrow> k \<in> set (keys t) \<longrightarrow> getProp h' a k = getProp h a k)
    \<and> (\<forall>b xs. (lookup h' b = Some (Array xs)) = (lookup h b = Some (Array xs)))
    \<and> (\<forall>a. isObject h a \<longrightarrow> isObject h' a))"

text \<open>
  Rows of the engine's table of visitor keys for the kinds of node that the examples
  below use.
\<close>

definition sampleKeys :: "string \<Rightarrow> string list" where
  "sampleKeys t =
     (if t = ''Program'' then [''body'']
      else if t = ''ExpressionStatement'' then [''expression'']
      else if t = ''UnaryExpression'' then [''argument'']
      else if t = ''ArrayExpression'' then [''elements'']
      else [])"

text \<open>
  The tree a parser produces for the source text \<open>0x1F\<close>: a program whose body is
  one expression statement holding the literal, with the literal's raw text.
\<close>

definition sampleProgram :: "heap \<times> addr" where
  "sampleProgram =
     ([Object [(''type'', Str ''Literal''), (''value'', Num 31), (''raw'', Str ''0x1F'')],
       Object [(''type'', Str ''ExpressionStatement''), (''expression'', Ref 0)],
       Array [Ref 1],
       Object [(''type'', Str ''Program''), (''body'', Ref 2), (''sourceType'', Str ''script'')]],
      3)"

text \<open>
  The tree of the expression \<open>[/a+/g, ,]\<close> after its parents were linked, standing
  alone: an array expression whose elements are a literal holding a regular expression
  and a hole.
\<close>

definition sampleArray :: "heap \<times> addr" where
  "sampleArray =
     ([RegExp ''a+'' ''g'',
       Object [(''pattern'', Str ''a+''), (''flags'', Str ''g'')],
       Object [(''type'', Str ''Literal''), (''value'', Ref 0), (''raw'', Str ''/a+/g''),
               (''regex'', Ref 1), (''parentNode'', Ref 4)],
       Array [Ref 2, Null],
       Object [(''type'', Str ''ArrayExpression''), (''elements'', Ref 3),
               (''parentNode'', Ref 4)]],
      4)"

text \<open>
  An identifier with its position in the source text, \<open>range: [0, 5]\<close>, as a parser
  asked for ranges gives it.
\<close>

definition sampleRanged :: "heap \<times> addr" where
  "sampleRanged =
     ([Array [Num 0, Num 5],
       Object [(''type'', Str ''Identifier''), (''name'', Str ''x''), (''range'', Ref 0)]],
      1)"

subsection \<open>cloneRecursive and clone\<close>

text \<open>
  \<open>Object.keys(node)\<close> followed by \<open>node[property]\<close>: the own enumerable properties
  of a value, with their values. \<open>undefined\<close> has none and \<open>Object.keys\<close> throws
  (\<open>null\<close> too, but \<open>cloneRecursive\<close> returns before it would ask); a boolean and a
  number have none; a string has its characters and an array its elements, under their
  indices in decimal; a regular expression has none. (A reference to no cell does not
  arise, since JavaScript has no dangling references; the model finds no property
  there.)
\<close>

fun showNat :: "nat \<Rightarrow> string" where
  "showNat n =
     (if n < 10 then [char_of (48 + n)] else showNat (n div 10) @ [char_of (48 + n mod 10)])"

fun indexed :: "nat \<Rightarrow> jsval list \<Rightarrow> (string \<times> jsval) list" where
  "indexed i [] = []"
| "indexed i (v # vs) = (showNat i, v) # indexed (Suc i) vs"

definition ownProperties :: "heap \<Rightarrow> jsval \<Rightarrow> error + (string \<times> jsval) list" where
  "ownProperties h v =
     (case v of
        Null \<Rightarrow> Inl TypeError
      | Undefined \<Rightarrow> Inl TypeError
      | Bool b \<Rightarrow> Inr []
      | Num n \<Rightarrow> Inr []
      | Str s \<Rightarrow> Inr (indexed 0 (map (\<lambda>c. Str [c]) s))
      | Ref a \<Rightarrow>
          (case lookup h a of
             Some (Object fs) \<Rightarrow> Inr fs
           | Some (Array xs) \<Rightarrow> Inr (indexed 0 xs)
           | Some (RegExp p f) \<Rightarrow> Inr []
           | None \<Rightarrow> Inr []))"

text \<open>\<open>value.map(NodeUtils.cloneRecursive)\<close>: the elements in order, the store threaded.\<close>

fun mapClone ::
  "(heap \<Rightarrow> jsval \<Rightarrow> (heap \<times> jsval) outcome) \<Rightarrow> heap \<Rightarrow> jsval list
     \<Rightarrow> (heap \<times> jsval list) outcome" where
  "mapClone f h [] = Returns (h, [])"
| "mapClone f h (x # xs) =
     (case f h x of
        Returns (h1, y) \<Rightarrow>
          (case mapClone f h1 xs of
             Returns (h2, ys) \<Rightarrow> Returns (h2, y # ys)
           | Throws e \<Rightarrow> Throws e
           | Exhausted \<Rightarrow> Exhausted)
      | Throws e \<Rightarrow> Throws e
      | Exhausted \<Rightarrow> Exhausted)"

text \<open>
  The four branches on the value of a property: \<open>null\<close> or a regular expression is
  taken as it is; an array is mapped, and the result is a new array; any other object
  is cloned; any other value is taken as it is.
\<close>

definition cloneValue ::
  "(heap \<Rightarrow> jsval \<Rightarrow> (heap \<times> jsval) outcome) \<Rightarrow> heap \<Rightarrow> jsval \<Rightarrow> (heap \<times> jsval) outcome" where
  "cloneValue f h v =
     (case v of
        Null \<Rightarrow> Returns (h, v)
      | Ref a \<Rightarrow>
          (case lookup h a of
             Some (RegExp p fl) \<Rightarrow> Returns (h, v)
           | Some (Array xs) \<Rightarrow>
               (case mapClone f h xs of
                  Returns (h1, ys) \<Rightarrow> (let (h2, b) = alloc h1 (Array ys) in Returns (h2, Ref b))
                | Throws e \<Rightarrow> Throws e
                | Exhausted \<Rightarrow> Exhausted)
           | _ \<Rightarrow> f h v)
      | _ \<Rightarrow> Returns (h, v))"

text \<open>
  The \<open>forEach\<close> over the properties: \<open>parentNode\<close> is passed over, every other
  property is assigned to the copy with its cloned value.
\<close>

fun cloneProperties ::
  "(heap \<Rightarrow> jsval \<Rightarrow> (heap \<times> jsval) outcome) \<Rightarrow> heap \<Rightarrow> (string \<times> jsval) list
     \<Rightarrow> (string \<times> jsval) list \<Rightarrow> (heap \<times> (string \<times> jsval) list) outcome" where
  "cloneProperties f h [] copy = Returns (h, copy)"
| "cloneProperties f h ((property, v) # rest) copy =
     (if property = ''parentNode'' then cloneProperties f h rest copy
      else (case cloneValue f h v of
              Returns (h1, clonedValue) \<Rightarrow>
                cloneProperties f h1 rest (assign copy property clonedValue)
            | Throws e \<Rightarrow> Throws e
            | Exhausted \<Rightarrow> Exhausted))"

text \<open>
  \<open>d\<close> bounds the nesting of the calls. The copy is local to the call until it is
  returned, so the model collects its properties and allocates it when it is complete;
  the source allocates the empty copy first and fills it, to the same result.
\<close>

primrec cloneRecursive :: "nat \<Rightarrow> heap \<Rightarrow> jsval \<Rightarrow> (heap \<times> jsval) outcome" where
  "cloneRecursive 0 = (\<lambda>h n. Exhausted)"
| "cloneRecursive (Suc d) = (\<lambda>h n.
     if n = Null then Returns (h, n)
     else (case ownProperties h n of
             Inl e \<Rightarrow> Throws e
           | Inr props \<Rightarrow>
               (case cloneProperties (cloneRecursive d) h props [] of
                  Returns (h1, copy) \<Rightarrow>
                    (let (h2, c) = alloc h1 (Object copy) in Returns (h2, Ref c))
                | Throws e \<Rightarrow> Throws e
                | Exhausted \<Rightarrow> Exhausted)))"

text \<open>
  \<open>parentizeAst(cloneRecursive(astTree))\<close>. The walk enters its root whatever it is,
  and \<open>parentizeNode\<close> cannot set a property of \<open>null\<close>: for the one result of
  \<open>cloneRecursive\<close> that is not an object the call throws a TypeError.
\<close>

definition clone ::
  "nat \<Rightarrow> (string \<Rightarrow> string list) \<Rightarrow> heap \<Rightarrow> jsval \<Rightarrow> (heap \<times> addr) outcome" where
  "clone d keys h astTree =
     (case cloneRecursive d h astTree of
        Returns (h1, copy) \<Rightarrow>
          (case copy of
             Ref c \<Rightarrow> parentizeAst d keys h1 c
           | _ \<Rightarrow> Throws TypeError)
      | Throws e \<Rightarrow> Throws e
      | Exhausted \<Rightarrow> Exhausted)"

section \<open>Reading a value back as a tree\<close>

text \<open>
  To compare values independently of where they live, a value is read back from the
  store as a finite tree. Every object and array of the tree carries its address, its
  identity. The property \<open>parentNode\<close> is not read, so two values with the same tree
  up to addresses are deep-equal under a comparison that ignores parent links. The
  reading is \<open>None\<close> when the value does not end within \<open>d\<close> levels, when it refers
  to no cell, or when an object lists a property twice.
\<close>

datatype tree =
    TNull
  | TUndefined
  | TBool bool
  | TNum real
  | TStr string
  | TRegExp addr string string
  | TObject addr "(string \<times> tree) list"
  | TArray addr "tree list"

definition ownFields :: "(string \<times> jsval) list \<Rightarrow> (string \<times> jsval) list" where
  "ownFields fs = filter (\<lambda>p. fst p \<noteq> ''parentNode'') fs"

primrec reify :: "nat \<Rightarrow> heap \<Rightarrow> jsval \<Rightarrow> tree option" where
  "reify 0 = (\<lambda>h v. None)"
| "reify (Suc d) = (\<lambda>h v.
     (case v of
        Null \<Rightarrow> Some TNull
      | Undefined \<Rightarrow> Some TUndefined
      | Bool b \<Rightarrow> Some (TBool b)
      | Num n \<Rightarrow> Some (TNum n)
      | Str s \<Rightarrow> Some (TStr s)
      | Ref a \<Rightarrow>
          (case lookup h a of
             None \<Rightarrow> None
           | Some (RegExp p f) \<Rightarrow> Some (TRegExp a p f)
           | Some (Array xs) \<Rightarrow> map_option (TArray a) (those (map (reify d h) xs))
           | Some (Object fs) \<Rightarrow>
               if distinct (map fst fs)
               then map_option (\<lambda>ts. TObject a (zip (map fst (ownFields fs)) ts))
                      (those (map (reify d h) (map snd (ownFields fs))))
               else None)))"

text \<open>The tree with the identities of its objects and arrays forgotten.\<close>

fun shape :: "tree \<Rightarrow> tree" where
  "shape (TObject a fs) = TObject 0 (map (\<lambda>p. (fst p, shape (snd p))) fs)"
| "shape (TArray a xs) = TArray 0 (map shape xs)"
| "shape t = t"

text \<open>The objects and arrays of a tree.\<close>

fun cellsOf :: "tree \<Rightarrow> addr list" where
  "cellsOf (TObject a fs) = a # concat (map (\<lambda>p. cellsOf (snd p)) fs)"
| "cellsOf (TArray a xs) = a # concat (map cellsOf xs)"
| "cellsOf t = []"

text \<open>
  A syntax tree in the sense of the data model: a node owns child nodes and ordered
  sequences of child nodes, next to scalars, regular expressions and nested records. In
  the tree read back, the elements of every sequence are objects or \<open>null\<close> (the hole
  of an array expression).
\<close>

fun isNodeOrNull :: "tree \<Rightarrow> bool" where
  "isNodeOrNull TNull = True"
| "isNodeOrNull (TObject a fs) = True"
| "isNodeOrNull t = False"

fun plain :: "tree \<Rightarrow> bool" where
  "plain (TObject a fs) = list_all (\<lambda>p. plain (snd p)) fs"
| "plain (TArray a xs) = list_all (\<lambda>x. isNodeOrNull x \<and> plain x) xs"
| "plain t = True"

text \<open>The regular expressions of a tree: they are shared, not owned.\<close>

fun regexpsOf :: "tree \<Rightarrow> addr list" where
  "regexpsOf (TRegExp a p f) = [a]"
| "regexpsOf (TObject a fs) = concat (map (\<lambda>p. regexpsOf (snd p)) fs)"
| "regexpsOf (TArray a xs) = concat (map regexpsOf xs)"
| "regexpsOf t = []"

text \<open>
  \<open>inside xs ys\<close>: every address occurs in \<open>xs\<close> at most as often as in \<open>ys\<close>. A
  list inside a list without repetitions has none.
\<close>

definition inside :: "addr list \<Rightarrow> addr list \<Rightarrow> bool" where
  "inside xs ys = (\<forall>x. count_list xs x \<le> count_list ys x)"

text \<open>The candidates that a property value contributes to the children of a node.\<close>

definition nodesIn :: "heap \<Rightarrow> jsval \<Rightarrow> addr list" where
  "nodesIn h v =
     (case v of
        Ref b \<Rightarrow>
          (case lookup h b of
             Some (Array xs) \<Rightarrow> refsOf (filter (isNode h) xs)
           | _ \<Rightarrow> if isNode h (Ref b) then [b] else [])
      | _ \<Rightarrow> [])"

text \<open>
  \<open>relinked h h'\<close>: the store \<open>h'\<close> is \<open>h\<close> but for the \<open>parentNode\<close> properties
  of some objects.
\<close>

definition relinked :: "heap \<Rightarrow> heap \<Rightarrow> bool" where
  "relinked h h' =
     (length h' = length h
    \<and> (\<forall>a < length h. h' ! a = h ! a
          \<or> (\<exists>fs fs'. h ! a = Object fs \<and> h' ! a = Object fs'
                \<and> ownFields fs' = ownFields fs
                \<and> distinct (map fst fs') = distinct (map fst fs))))"

text \<open>
  The rule of the copy, as the description of the cloner gives it, between the tree read
  from the source and the tree read from the copy; \<open>n\<close> is the size of the store
  before the call, so that an address from \<open>n\<close> on is a new object or array. A
  structured value becomes a new object with the same keys and every value copied by the
  rule, a sequence becomes a new array with every element copied by the rule, and
  \<open>null\<close>, a regular expression (with its address) and a scalar are the same in the
  copy.
\<close>

fun copied :: "nat \<Rightarrow> tree \<Rightarrow> tree \<Rightarrow> bool" where
  "copied n (TObject a fs) t' =
     (case t' of
        TObject a' fs' \<Rightarrow>
          n \<le> a' \<and> map fst fs' = map fst fs
        \<and> list_all2 (copied n) (map snd fs) (map snd fs')
      | _ \<Rightarrow> False)"
| "copied n (TArray a xs) t' =
     (case t' of
        TArray a' xs' \<Rightarrow> n \<le> a' \<and> list_all2 (copied n) xs xs'
      | _ \<Rightarrow> False)"
| "copied n t t' = (t' = t)"

section \<open>Properties of the factory\<close>

lemma node_eq:
  "node h props =
     (h @ [Object [(''ignoredNode'', Bool False)], Object (props @ [(''metadata'', Ref (length h))])],
      Suc (length h))"
  by (simp add: node_def alloc_def)

lemma lookup_last [simp]: "lookup (h @ [c]) (length h) = Some c"
  by (simp add: lookup_def)

lemma lookup_last2 [simp]:
  "lookup (h @ [c, c']) (length h) = Some c" "lookup (h @ [c, c']) (Suc (length h)) = Some c'"
  by (simp_all add: lookup_def nth_append)

lemma node_metadata:
  assumes "node h props = (h', n)" and "''metadata'' \<notin> fst ` set props"
    and "''parentNode'' \<notin> fst ` set props"
  shows "\<exists>m. getProp h' n ''metadata'' = Ref m \<and> getProp h' m ''ignoredNode'' = Bool False
           \<and> \<not> hasProp h' n ''parentNode''"
proof -
  have none: "map_of props ''metadata'' = None"
    using assms(2) by (simp add: map_of_eq_None_iff)
  from assms(1) have h': "h' = h @ [Object [(''ignoredNode'', Bool False)],
      Object (props @ [(''metadata'', Ref (length h))])]" and n: "n = Suc (length h)"
    by (simp_all add: node_eq)
  have "getProp h' n ''metadata'' = Ref (length h)"
    by (simp add: h' n getProp_def none map_add_def)
  moreover have "getProp h' (length h) ''ignoredNode'' = Bool False"
    by (simp add: h' getProp_def)
  moreover have "\<not> hasProp h' n ''parentNode''"
    using assms(3) by (simp add: h' n hasProp_def)
  ultimately show ?thesis by blast
qed


lemma node_complete:
  "''metadata'' \<notin> fst ` set props \<Longrightarrow> ''parentNode'' \<notin> fst ` set props \<Longrightarrow> complete (node h props)"
  using node_metadata[of h props] by (cases "node h props") (auto simp: complete_def)

lemma factory_complete: "complete (factory nts prim h c)"
  by (cases c)
      (simp_all add: programNode_def arrayExpressionNode_def assignmentExpressionNode_def
        binaryExpressionNode_def blockStatementNode_def breakStatement_def callExpressionNode_def
        continueStatement_def expressionStatementNode_def functionDeclarationNode_def
        functionExpressionNode_def ifStatementNode_def identifierNode_def literalNode_def
        logicalExpressionNode_def memberExpressionNode_def methodDefinitionNode_def
        objectExpressionNode_def propertyNode_def returnStatementNode_def switchStatementNode_def
        switchCaseNode_def unaryExpressionNode_def updateExpressionNode_def
        variableDeclarationNode_def variableDeclaratorNode_def whileStatementNode_def
        Let_def node_complete split: prod.splits)

lemma getProp_node:
  "getProp (fst (node h props)) (snd (node h props)) k =
     (case map_of props k of Some v \<Rightarrow> v
      | None \<Rightarrow> if k = ''metadata'' then Ref (length h) else Undefined)"
  by (simp add: node_eq getProp_def map_add_def split: option.splits)

lemma hasProp_node:
  "hasProp (fst (node h props)) (snd (node h props)) k = (k \<in> fst ` set props \<or> k = ''metadata'')"
  by (auto simp: node_eq hasProp_def)

lemma lookup_append3:
  "lookup (h @ [c0, c1, c2]) (length h) = Some c0"
  "lookup (h @ [c0, c1, c2]) (Suc (length h)) = Some c1"
  "lookup (h @ [c0, c1, c2]) (Suc (Suc (length h))) = Some c2"
  by (simp_all add: lookup_def nth_append)

lemma literalNode_eq:
  "literalNode nts prim h val raw =
     (let r = (case raw of Some r \<Rightarrow> r | None \<Rightarrow> [CHR 0x27] @ toString nts val @ [CHR 0x27])
      in (h @ [Object [(''content'', Str r), (''precedence'', prim)],
               Object [(''ignoredNode'', Bool False)],
               Object [(''type'', Str ''Literal''), (''value'', primitiveValue val),
                       (''raw'', Str r), (''x-verbatim-property'', Ref (length h)),
                       (''metadata'', Ref (Suc (length h)))]],
          Suc (Suc (length h))))"
  by (simp add: literalNode_def node_eq alloc_def Let_def)

lemma literalNode_props:
  assumes "literalNode nts prim h val raw = (h', n)"
  shows "getProp h' n ''value'' = primitiveValue val"
    and "getProp h' n ''raw'' =
           Str (case raw of Some r \<Rightarrow> r | None \<Rightarrow> [CHR 0x27] @ toString nts val @ [CHR 0x27])"
    and "getProp h' n ''x-verbatim-property'' = Ref (length h)"
    and "lookup h' (length h) = Some (Object [(''content'', getProp h' n ''raw''), (''precedence'', prim)])"
proof -
  define r where "r = (case raw of Some r \<Rightarrow> r | None \<Rightarrow> [CHR 0x27] @ toString nts val @ [CHR 0x27])"
  from assms have n: "n = Suc (Suc (length h))"
    and h': "h' = h @ [Object [(''content'', Str r), (''precedence'', prim)],
               Object [(''ignoredNode'', Bool False)],
               Object [(''type'', Str ''Literal''), (''value'', primitiveValue val),
                       (''raw'', Str r), (''x-verbatim-property'', Ref (length h)),
                       (''metadata'', Ref (Suc (length h)))]]"
    by (simp_all add: literalNode_eq r_def Let_def)
  show "getProp h' n ''value'' = primitiveValue val"
    and raw: "getProp h' n ''raw'' =
           Str (case raw of Some r \<Rightarrow> r | None \<Rightarrow> [CHR 0x27] @ toString nts val @ [CHR 0x27])"
    and "getProp h' n ''x-verbatim-property'' = Ref (length h)"
    by (simp_all add: getProp_def n h' lookup_append3 r_def)
  show "lookup h' (length h) = Some (Object [(''content'', getProp h' n ''raw''), (''precedence'', prim)])"
    unfolding raw by (simp add: h' lookup_append3 r_def)
qed

text \<open>
  Claim C5. Whatever constructor of the factory is called, and with whatever arguments,
  the node it returns has a \<open>metadata\<close> object whose \<open>ignoredNode\<close> is
  \<open>false\<close> and has no \<open>parentNode\<close> property; a node returned by
  \<open>literalNode\<close> moreover carries the verbatim annotation, a fresh object with a
  string \<open>content\<close> and the primary precedence.
\<close>

theorem factory_metadata_complete:
  assumes "factory nts prim h c = (h', n)"
  shows "(\<exists>m. getProp h' n ''metadata'' = Ref m \<and> getProp h' m ''ignoredNode'' = Bool False)
          \<and> \<not> hasProp h' n ''parentNode''
          \<and> (\<forall>val raw. c = CallLiteralNode val raw \<longrightarrow>
                (\<exists>x content. getProp h' n ''x-verbatim-property'' = Ref x
                    \<and> lookup h' x = Some (Object [(''content'', Str content), (''precedence'', prim)])))"
proof -
  have "complete (h', n)"
    using factory_complete[of nts prim h c] assms by simp
  moreover have "\<exists>x content. getProp h' n ''x-verbatim-property'' = Ref x
                    \<and> lookup h' x = Some (Object [(''content'', Str content), (''precedence'', prim)])"
    if "c = CallLiteralNode val raw" for val raw
  proof -
    from assms that have l: "literalNode nts prim h val raw = (h', n)" by simp
    from literalNode_props(2,3,4)[OF l] show ?thesis by metis
  qed
  ultimately show ?thesis by (simp add: complete_def)
qed

theorem factory_metadata_complete_witness:
  "\<exists>h'. factory (\<lambda>n. ''31'') (Num 19) [] (CallLiteralNode (PNum 31) (Some ''0x1F'')) = (h', 2)
     \<and> h' = [Object [(''content'', Str ''0x1F''), (''precedence'', Num 19)],
             Object [(''ignoredNode'', Bool False)],
             Object [(''type'', Str ''Literal''), (''value'', Num 31), (''raw'', Str ''0x1F''),
                     (''x-verbatim-property'', Ref 0), (''metadata'', Ref 1)]]
     \<and> (\<exists>m. getProp h' 2 ''metadata'' = Ref m \<and> getProp h' m ''ignoredNode'' = Bool False)
     \<and> \<not> hasProp h' 2 ''parentNode''
     \<and> (\<exists>x content. getProp h' 2 ''x-verbatim-property'' = Ref x
            \<and> lookup h' x = Some (Object [(''content'', Str content), (''precedence'', Num 19)]))"
proof -
  define h' :: heap where "h' = [Object [(''content'', Str ''0x1F''), (''precedence'', Num 19)],
       Object [(''ignoredNode'', Bool False)],
       Object [(''type'', Str ''Literal''), (''value'', Num 31), (''raw'', Str ''0x1F''),
               (''x-verbatim-property'', Ref 0), (''metadata'', Ref 1)]]"
  have e: "factory (\<lambda>n. ''31'') (Num 19) [] (CallLiteralNode (PNum 31) (Some ''0x1F'')) = (h', 2)"
    unfolding h'_def by (simp add: literalNode_eq Let_def numeral_2_eq_2)
  note t = factory_metadata_complete[OF e]
  from t have "\<exists>x content. getProp h' 2 ''x-verbatim-property'' = Ref x
            \<and> lookup h' x = Some (Object [(''content'', Str content), (''precedence'', Num 19)])"
    by simp
  with t e h'_def show ?thesis by (intro exI[of _ h'] conjI) simp_all
qed

text \<open>
  What \<open>literalNode\<close> stores. Called without \<open>raw\<close>, it takes as raw form the
  value printed as a string between single quotes: \<open>true\<close> or \<open>false\<close> for a
  boolean, the runtime's printing for a number, the string itself for a string. Called
  with \<open>raw\<close>, it takes that. In both cases the verbatim annotation has the raw form
  as its \<open>content\<close> and the primary precedence as its \<open>precedence\<close>.
\<close>

theorem literalNode_raw_and_verbatim:
  assumes "literalNode nts prim h val raw = (h', n)"
  shows "(raw = None \<longrightarrow> getProp h' n ''raw'' =
            Str ([CHR 0x27]
                 @ (case val of
                      PBool b \<Rightarrow> if b then ''true'' else ''false''
                    | PNum v \<Rightarrow> nts v
                    | PStr s \<Rightarrow> s)
                 @ [CHR 0x27]))
       \<and> (\<forall>r. raw = Some r \<longrightarrow> getProp h' n ''raw'' = Str r)
       \<and> getProp h' n ''value'' = primitiveValue val
       \<and> (\<exists>x. getProp h' n ''x-verbatim-property'' = Ref x
              \<and> getProp h' x ''content'' = getProp h' n ''raw''
              \<and> getProp h' x ''precedence'' = prim)"
proof -
  note p = literalNode_props[OF assms]
  have c: "getProp h' (length h) ''content'' = getProp h' n ''raw''"
    and q: "getProp h' (length h) ''precedence'' = prim"
    by (simp_all add: getProp_def p(4))
  from p(1,2,3) c q show ?thesis by (cases val) simp_all
qed

theorem literalNode_raw_and_verbatim_witness:
  "\<exists>h'. literalNode (\<lambda>n. ''31'') (Num 19) [] (PStr ''abc'') None = (h', 2)
     \<and> h' = [Object [(''content'', Str [CHR 0x27, CHR ''a'', CHR ''b'', CHR ''c'', CHR 0x27]),
                     (''precedence'', Num 19)],
             Object [(''ignoredNode'', Bool False)],
             Object [(''type'', Str ''Literal''), (''value'', Str ''abc''),
                     (''raw'', Str [CHR 0x27, CHR ''a'', CHR ''b'', CHR ''c'', CHR 0x27]),
                     (''x-verbatim-property'', Ref 0), (''metadata'', Ref 1)]]
     \<and> getProp h' 2 ''raw'' = Str ([CHR 0x27] @ ''abc'' @ [CHR 0x27])
     \<and> getProp h' 2 ''value'' = Str ''abc''
     \<and> (\<exists>x. getProp h' 2 ''x-verbatim-property'' = Ref x
            \<and> getProp h' x ''content'' = getProp h' 2 ''raw''
            \<and> getProp h' x ''precedence'' = Num 19)"
proof -
  define h' :: heap where "h' =
      [Object [(''content'', Str [CHR 0x27, CHR ''a'', CHR ''b'', CHR ''c'', CHR 0x27]),
               (''precedence'', Num 19)],
       Object [(''ignoredNode'', Bool False)],
       Object [(''type'', Str ''Literal''), (''value'', Str ''abc''),
               (''raw'', Str [CHR 0x27, CHR ''a'', CHR ''b'', CHR ''c'', CHR 0x27]),
               (''x-verbatim-property'', Ref 0), (''metadata'', Ref 1)]]"
  have e: "literalNode (\<lambda>n. ''31'') (Num 19) [] (PStr ''abc'') None = (h', 2)"
    unfolding h'_def by (simp add: literalNode_eq Let_def numeral_2_eq_2)
  note t = literalNode_raw_and_verbatim[OF e]
  from t have r: "getProp h' 2 ''raw'' = Str ([CHR 0x27] @ ''abc'' @ [CHR 0x27])"
    and v: "getProp h' 2 ''value'' = Str ''abc''" by simp_all
  from t have x: "\<exists>x. getProp h' 2 ''x-verbatim-property'' = Ref x
            \<and> getProp h' x ''content'' = getProp h' 2 ''raw''
            \<and> getProp h' x ''precedence'' = Num 19" by blast
  from e h'_def r v x show ?thesis by (intro exI[of _ h'] conjI)
qed

text \<open>
  Claim C6. The literal \<open>literalNode(31, '0x1F')\<close> has the raw form \<open>0x1F\<close> and an
  annotation with that content. \<open>convertStructureToCode\<close>, the one call of the
  generator, passes it no \<open>verbatim\<close> option, so the text of the literal is what the
  generator gives without its verbatim extension: for the generator of the examples
  \<open>31\<close>, the number printed from its value, where the same generator asked to use
  the annotation gives \<open>0x1F\<close>. The chosen textual form is not reproduced.
\<close>

theorem literalNode_not_reproduced:
  "literalNode nts prim [] (PNum 31) (Some ''0x1F'') =
     ([Object [(''content'', Str ''0x1F''), (''precedence'', prim)],
       Object [(''ignoredNode'', Bool False)],
       Object [(''type'', Str ''Literal''), (''value'', Num 31), (''raw'', Str ''0x1F''),
               (''x-verbatim-property'', Ref 0), (''metadata'', Ref 1)]],
      2)
   \<and> convertStructureToCode generate (fst (literalNode nts prim [] (PNum 31) (Some ''0x1F'')))
         [Ref 2]
       = generate \<lparr>verbatim = None, sourceMapWithCode = True\<rparr>
           (fst (literalNode nts prim [] (PNum 31) (Some ''0x1F''))) (Ref 2)
   \<and> convertStructureToCode (sampleGenerate (\<lambda>v. ''31''))
         (fst (literalNode nts prim [] (PNum 31) (Some ''0x1F''))) [Ref 2]
       = ''31''
   \<and> sampleGenerate (\<lambda>v. ''31'')
         \<lparr>verbatim = Some ''x-verbatim-property'', sourceMapWithCode = True\<rparr>
         (fst (literalNode nts prim [] (PNum 31) (Some ''0x1F''))) (Ref 2)
       = ''0x1F''"
proof -
  have e: "literalNode nts prim [] (PNum 31) (Some ''0x1F'') =
     ([Object [(''content'', Str ''0x1F''), (''precedence'', prim)],
       Object [(''ignoredNode'', Bool False)],
       Object [(''type'', Str ''Literal''), (''value'', Num 31), (''raw'', Str ''0x1F''),
               (''x-verbatim-property'', Ref 0), (''metadata'', Ref 1)]],
      2)"
    by (simp add: literalNode_eq Let_def numeral_2_eq_2)
  show ?thesis
    unfolding e
    by (simp add: convertStructureToCode_def sampleGenerate_def sampleExpression_def
        annotation_def getProp_def lookup_def)
qed

text \<open>
  Claim C7. Defaults of the optional arguments: \<open>ifStatementNode\<close> gives the node an
  \<open>alternate\<close> property exactly when the argument is truthy (so none when it is left
  out, and the supplied block when there is one); \<open>variableDeclarationNode\<close> without
  a kind makes a \<open>var\<close> declaration; \<open>memberExpressionNode\<close> and
  \<open>propertyNode\<close> without \<open>computed\<close> set it to \<open>false\<close>.
\<close>

theorem factory_defaults:
  "\<not> hasProp (fst (ifStatementNode h test consequent Undefined))
        (snd (ifStatementNode h test consequent Undefined)) ''alternate''
   \<and> hasProp (fst (ifStatementNode h test consequent alternate))
        (snd (ifStatementNode h test consequent alternate)) ''alternate'' = truthy alternate
   \<and> getProp (fst (ifStatementNode h test consequent (Ref a)))
        (snd (ifStatementNode h test consequent (Ref a))) ''alternate'' = Ref a
   \<and> getProp (fst (variableDeclarationNode h declarations None))
        (snd (variableDeclarationNode h declarations None)) ''kind'' = Str ''var''
   \<and> getProp (fst (memberExpressionNode h object property None))
        (snd (memberExpressionNode h object property None)) ''computed'' = Bool False
   \<and> getProp (fst (propertyNode h key val None))
        (snd (propertyNode h key val None)) ''computed'' = Bool False"
proof (intro conjI)
  show "\<not> hasProp (fst (ifStatementNode h test consequent Undefined))
        (snd (ifStatementNode h test consequent Undefined)) ''alternate''"
    by (simp add: ifStatementNode_def hasProp_node)
  show "hasProp (fst (ifStatementNode h test consequent alternate))
        (snd (ifStatementNode h test consequent alternate)) ''alternate'' = truthy alternate"
    by (auto simp: ifStatementNode_def hasProp_node)
  show "getProp (fst (ifStatementNode h test consequent (Ref a)))
        (snd (ifStatementNode h test consequent (Ref a))) ''alternate'' = Ref a"
    by (simp add: ifStatementNode_def getProp_node)
  show "getProp (fst (variableDeclarationNode h declarations None))
        (snd (variableDeclarationNode h declarations None)) ''kind'' = Str ''var''"
    by (simp add: variableDeclarationNode_def getProp_node split: prod.splits)
  show "getProp (fst (memberExpressionNode h object property None))
        (snd (memberExpressionNode h object property None)) ''computed'' = Bool False"
    by (simp add: memberExpressionNode_def getProp_node)
  show "getProp (fst (propertyNode h key val None))
        (snd (propertyNode h key val None)) ''computed'' = Bool False"
    by (simp add: propertyNode_def getProp_node)
qed

section \<open>The unary chain and the parser's failure\<close>

lemma getUnary_result_not_unary:
  "getUnaryExpressionArgumentNode d h u = Returns v \<Longrightarrow> isUnaryExpressionNode h v = Inr False"
proof (induction d arbitrary: u)
  case 0
  then show ?case by simp
next
  case (Suc d)
  then show ?case
    by (auto split: sum.splits bool.splits)
qed

text \<open>
  Claim C9. For a unary expression whose chain of nested unary arguments ends after
  \<open>k\<close> steps, \<open>getUnaryExpressionArgumentNode\<close> returns, given room for more than
  \<open>k\<close> nested calls, the first argument of the chain that is not a unary expression.
  The function reads the store and returns a value only: it has no store to hand back,
  so no node is changed. For \<open>!!!x\<close> the result is the identifier \<open>x\<close>.
\<close>

theorem unary_chain_unwrapped:
  assumes "unwraps h k u v" and "k < d"
  shows "getUnaryExpressionArgumentNode d h u = Returns v
         \<and> isUnaryExpressionNode h v = Inr False"
  using assms
proof (induction arbitrary: d rule: unwraps.induct)
  case (innermost u v)
  then obtain d' where "d = Suc d'" by (cases d) auto
  with innermost show ?case by simp
next
  case (nested u w k v)
  then obtain d' where d: "d = Suc d'" and "k < d'" by (cases d) auto
  with nested show ?case by simp
qed

lemma tripleNegation_eq:
  "tripleNegation =
     ([Object [(''ignoredNode'', Bool False)],
       Object [(''type'', Str ''Identifier''), (''name'', Str ''x''), (''metadata'', Ref 0)],
       Object [(''ignoredNode'', Bool False)],
       Object [(''type'', Str ''UnaryExpression''), (''operator'', Str ''!''),
               (''argument'', Ref 1), (''prefix'', Bool True), (''metadata'', Ref 2)],
       Object [(''ignoredNode'', Bool False)],
       Object [(''type'', Str ''UnaryExpression''), (''operator'', Str ''!''),
               (''argument'', Ref 3), (''prefix'', Bool True), (''metadata'', Ref 4)],
       Object [(''ignoredNode'', Bool False)],
       Object [(''type'', Str ''UnaryExpression''), (''operator'', Str ''!''),
               (''argument'', Ref 5), (''prefix'', Bool True), (''metadata'', Ref 6)]], 7)"
  by (simp add: tripleNegation_def identifierNode_def unaryExpressionNode_def node_eq
      eval_nat_numeral)

theorem unary_chain_unwrapped_witness:
  "unwraps (fst tripleNegation) 2 (Ref (snd tripleNegation)) (Ref 1)
   \<and> getProp (fst tripleNegation) 1 ''type'' = Str ''Identifier''
   \<and> getProp (fst tripleNegation) 1 ''name'' = Str ''x''
   \<and> getUnaryExpressionArgumentNode 3 (fst tripleNegation) (Ref (snd tripleNegation))
        = Returns (Ref 1)
   \<and> isUnaryExpressionNode (fst tripleNegation) (Ref 1) = Inr False"
proof -
  define h where "h = fst tripleNegation"
  have n: "snd tripleNegation = 7" by (simp add: tripleNegation_eq)
  have a7: "readProp h (Ref 7) ''argument'' = Inr (Ref 5)"
    and a5: "readProp h (Ref 5) ''argument'' = Inr (Ref 3)"
    and a3: "readProp h (Ref 3) ''argument'' = Inr (Ref 1)"
    and u5: "isUnaryExpressionNode h (Ref 5) = Inr True"
    and u3: "isUnaryExpressionNode h (Ref 3) = Inr True"
    and u1: "isUnaryExpressionNode h (Ref 1) = Inr False"
    and t1: "getProp h 1 ''type'' = Str ''Identifier''"
    and x1: "getProp h 1 ''name'' = Str ''x''"
    by (simp_all add: h_def tripleNegation_eq getProp_def lookup_def isUnaryExpressionNode_def
        hasType_def)
  have "unwraps h 0 (Ref 3) (Ref 1)" using a3 u1 by (rule unwraps.innermost)
  with a5 u3 have "unwraps h (Suc 0) (Ref 5) (Ref 1)" by (rule unwraps.nested)
  with a7 u5 have "unwraps h (Suc (Suc 0)) (Ref 7) (Ref 1)" by (rule unwraps.nested)
  then have w: "unwraps h 2 (Ref 7) (Ref 1)" by (simp add: numeral_2_eq_2)
  from unary_chain_unwrapped[OF w, of 3] w t1 x1 show ?thesis
    by (simp add: h_def n)
qed

text \<open>
  Claim C10. When the parser rejects the source text, \<open>convertCodeToStructure\<close>
  throws the parser's own failure, unchanged; the outcome carries the failure only, and
  neither a store nor a node.
\<close>

theorem syntax_error_propagates:
  assumes "parse code h = Inl e"
  shows "convertCodeToStructure d parse keys primary h code = Throws e"
  using assms by (simp add: convertCodeToStructure_def)

theorem syntax_error_propagates_witness:
  "convertCodeToStructure 5 (\<lambda>code h. Inl (SyntaxError ''Unexpected token'')) (\<lambda>t. [])
     (Num 19) [] ''var = ;'' = Throws (SyntaxError ''Unexpected token'')"
  using syntax_error_propagates[of "\<lambda>code h. Inl (SyntaxError ''Unexpected token'')" "''var = ;''"
      "[]" "SyntaxError ''Unexpected token''" 5 "\<lambda>t. []" "Num 19"]
  by simp

section \<open>The tree walk\<close>

lemma those_Cons_Some:
  "those (x # xs) = Some ys \<longleftrightarrow> (\<exists>y ys'. x = Some y \<and> those xs = Some ys' \<and> ys = y # ys')"
  by (cases x) (auto simp: map_option_case split: option.splits)

lemma isObject_less: "isObject h a \<Longrightarrow> a < length h"
  by (simp add: isObject_def lookup_def split: if_splits)

lemma walked_refl: "walked keys enter h [] h"
  by (simp add: walked_def)

lemma walked_enter:
  assumes "modest keys enter" and "isObject h n"
  shows "walked keys enter h [(n, p)] (fst (enter h n p))"
proof -
  from assms have m: "length h \<le> length (fst (enter h n p))"
    "\<forall>a < length h. a \<noteq> n \<longrightarrow> fst (enter h n p) ! a = h ! a"
    "\<forall>a. childrenOf keys (fst (enter h n p)) a = childrenOf keys h a"
    "\<forall>a. isObject h a \<longrightarrow> isObject (fst (enter h n p)) a"
    unfolding modest_def by blast+
  have "\<exists>ha. length h \<le> length ha \<and> ha ! n = h ! n
        \<and> length (fst (enter ha n p)) \<le> length (fst (enter h n p))
        \<and> (\<forall>b. (b = n \<or> length ha \<le> b) \<and> b < length (fst (enter ha n p))
               \<longrightarrow> fst (enter h n p) ! b = fst (enter ha n p) ! b)"
    by (rule exI[of _ h]) simp
  with m show ?thesis by (simp add: walked_def)
qed

lemma walked_trans:
  assumes w1: "walked keys enter h vs1 h1" and w2: "walked keys enter h1 vs2 h2"
    and disj: "fst ` set vs1 \<inter> fst ` set vs2 = {}"
    and old: "\<forall>a \<in> fst ` set vs2. a < length h"
  shows "walked keys enter h (vs1 @ vs2) h2"
proof -
  from w1 have l1: "length h \<le> length h1"
    and f1: "\<And>a. a < length h \<Longrightarrow> a \<notin> fst ` set vs1 \<Longrightarrow> h1 ! a = h ! a"
    and c1: "\<And>a. childrenOf keys h1 a = childrenOf keys h a"
    and o1: "\<And>a. isObject h a \<Longrightarrow> isObject h1 a"
    and t1: "\<And>a q. (a, q) \<in> set vs1 \<Longrightarrow> \<exists>ha.
          length h \<le> length ha \<and> ha ! a = h ! a
        \<and> length (fst (enter ha a q)) \<le> length h1
        \<and> (\<forall>b. (b = a \<or> length ha \<le> b) \<and> b < length (fst (enter ha a q))
               \<longrightarrow> h1 ! b = fst (enter ha a q) ! b)"
    unfolding walked_def by blast+
  from w2 have l2: "length h1 \<le> length h2"
    and f2: "\<And>a. a < length h1 \<Longrightarrow> a \<notin> fst ` set vs2 \<Longrightarrow> h2 ! a = h1 ! a"
    and c2: "\<And>a. childrenOf keys h2 a = childrenOf keys h1 a"
    and o2: "\<And>a. isObject h1 a \<Longrightarrow> isObject h2 a"
    and t2: "\<And>a q. (a, q) \<in> set vs2 \<Longrightarrow> \<exists>ha.
          length h1 \<le> length ha \<and> ha ! a = h1 ! a
        \<and> length (fst (enter ha a q)) \<le> length h2
        \<and> (\<forall>b. (b = a \<or> length ha \<le> b) \<and> b < length (fst (enter ha a q))
               \<longrightarrow> h2 ! b = fst (enter ha a q) ! b)"
    unfolding walked_def by blast+
  have frame: "h2 ! a = h ! a" if "a < length h" "a \<notin> fst ` set (vs1 @ vs2)" for a
  proof -
    from that l1 have "h2 ! a = h1 ! a" by (intro f2) auto
    also from that have "h1 ! a = h ! a" by (intro f1) auto
    finally show ?thesis .
  qed
  have trace: "\<exists>ha. length h \<le> length ha \<and> ha ! a = h ! a
        \<and> length (fst (enter ha a q)) \<le> length h2
        \<and> (\<forall>b. (b = a \<or> length ha \<le> b) \<and> b < length (fst (enter ha a q))
               \<longrightarrow> h2 ! b = fst (enter ha a q) ! b)"
    if aq: "(a, q) \<in> set (vs1 @ vs2)" for a q
  proof (cases "(a, q) \<in> set vs1")
    case True
    from t1[OF True] obtain ha where ha: "length h \<le> length ha" "ha ! a = h ! a"
      "length (fst (enter ha a q)) \<le> length h1"
      "\<forall>b. (b = a \<or> length ha \<le> b) \<and> b < length (fst (enter ha a q))
               \<longrightarrow> h1 ! b = fst (enter ha a q) ! b" by blast
    have a1: "a \<notin> fst ` set vs2" using True disj by force
    have "h2 ! b = fst (enter ha a q) ! b"
      if b: "b = a \<or> length ha \<le> b" "b < length (fst (enter ha a q))" for b
    proof -
      have "b \<notin> fst ` set vs2"
      proof (cases "b = a")
        case True with a1 show ?thesis by simp
      next
        case False
        with b ha(1) have "length h \<le> b" by simp
        with old show ?thesis by force
      qed
      moreover from b ha(3) have "b < length h1" by simp
      ultimately have "h2 ! b = h1 ! b" by (intro f2)
      with ha(4) b show ?thesis by simp
    qed
    with ha l2 show ?thesis by (intro exI[of _ ha]) simp
  next
    case False
    with aq have in2: "(a, q) \<in> set vs2" by simp
    from t2[OF in2] obtain ha where ha: "length h1 \<le> length ha" "ha ! a = h1 ! a"
      "length (fst (enter ha a q)) \<le> length h2"
      "\<forall>b. (b = a \<or> length ha \<le> b) \<and> b < length (fst (enter ha a q))
               \<longrightarrow> h2 ! b = fst (enter ha a q) ! b" by blast
    from in2 have a2: "a \<in> fst ` set vs2" by force
    with disj have "a \<notin> fst ` set vs1" by blast
    moreover from a2 old have "a < length h" by blast
    ultimately have "h1 ! a = h ! a" by (intro f1)
    with ha l1 show ?thesis by (intro exI[of _ ha]) simp
  qed
  from l1 l2 have "length h \<le> length h2" by simp
  moreover have "\<forall>a. childrenOf keys h2 a = childrenOf keys h a" by (simp add: c1 c2)
  moreover have "\<forall>a. isObject h a \<longrightarrow> isObject h2 a" by (simp add: o1 o2)
  ultimately show ?thesis
    unfolding walked_def using frame trace by blast
qed


lemma walked_children:
  "walked keys enter h vs h' \<Longrightarrow> childrenOf keys h' = childrenOf keys h"
  by (auto simp: walked_def)

lemma walked_objects:
  "walked keys enter h vs h' \<Longrightarrow> isObject h a \<Longrightarrow> isObject h' a"
  by (auto simp: walked_def)

lemma walkAll_walked:
  assumes step: "\<And>h c vs. visits d (childrenOf keys h) c (Some n) = Some vs
            \<Longrightarrow> distinct (map fst vs) \<Longrightarrow> \<forall>a \<in> fst ` set vs. isObject h a
            \<Longrightarrow> \<exists>h'. replace d keys enter h c (Some n) = Returns h' \<and> walked keys enter h vs h'"
  shows "those (map (\<lambda>c. visits d (childrenOf keys h) c (Some n)) cs) = Some vss
         \<Longrightarrow> distinct (map fst (concat vss))
         \<Longrightarrow> \<forall>a \<in> fst ` set (concat vss). isObject h a
         \<Longrightarrow> \<exists>h'. walkAll (\<lambda>h2 c. replace d keys enter h2 c (Some n)) h cs = Returns h'
                \<and> walked keys enter h (concat vss) h'"
proof (induction cs arbitrary: h vss)
  case Nil
  then show ?case by (simp add: walked_refl)
next
  case (Cons c cs)
  from Cons.prems(1) obtain vs vss' where
    v: "visits d (childrenOf keys h) c (Some n) = Some vs"
    and r: "those (map (\<lambda>c. visits d (childrenOf keys h) c (Some n)) cs) = Some vss'"
    and vss: "vss = vs # vss'"
    by (auto simp del: those.simps simp: those_Cons_Some)
  from Cons.prems(2,3) vss have dv: "distinct (map fst vs)"
    and dr: "distinct (map fst (concat vss'))"
    and disj: "fst ` set vs \<inter> fst ` set (concat vss') = {}"
    and ov: "\<forall>a \<in> fst ` set vs. isObject h a"
    and orest: "\<forall>a \<in> fst ` set (concat vss'). isObject h a"
    by auto
  from step[OF v dv ov] obtain h1 where
    h1: "replace d keys enter h c (Some n) = Returns h1" and w1: "walked keys enter h vs h1"
    by blast
  have ch: "childrenOf keys h1 = childrenOf keys h" by (rule walked_children[OF w1])
  from r have r1: "those (map (\<lambda>c. visits d (childrenOf keys h1) c (Some n)) cs) = Some vss'"
    by (simp add: ch)
  from orest have o1: "\<forall>a \<in> fst ` set (concat vss'). isObject h1 a"
    using walked_objects[OF w1] by blast
  from Cons.IH[OF r1 dr o1] obtain h2 where
    h2: "walkAll (\<lambda>h2 c. replace d keys enter h2 c (Some n)) h1 cs = Returns h2"
    and w2: "walked keys enter h1 (concat vss') h2" by blast
  from orest have old: "\<forall>a \<in> fst ` set (concat vss'). a < length h"
    using isObject_less by blast
  have "walked keys enter h (vs @ concat vss') h2"
    by (rule walked_trans[OF w1 w2 disj old])
  with h1 h2 vss show ?case by simp
qed

lemma replace_walked:
  assumes m: "modest keys enter"
  shows "visits d (childrenOf keys h) n p = Some vs
         \<Longrightarrow> distinct (map fst vs) \<Longrightarrow> \<forall>a \<in> fst ` set vs. isObject h a
         \<Longrightarrow> \<exists>h'. replace d keys enter h n p = Returns h' \<and> walked keys enter h vs h'"
proof (induction d arbitrary: h n p vs)
  case 0
  then show ?case by simp
next
  case (Suc d)
  from Suc.prems(1) obtain vss where
    t: "those (map (\<lambda>c. visits d (childrenOf keys h) c (Some n)) (childrenOf keys h n)) = Some vss"
    and vs: "vs = (n, p) # concat vss"
    by (auto split: option.splits)
  from Suc.prems(3) vs have on: "isObject h n" by simp
  define h1 where "h1 = fst (enter h n p)"
  from m on have e: "enter h n p = (h1, n)"
    unfolding modest_def h1_def by (metis prod.collapse)
  have w0: "walked keys enter h [(n, p)] h1"
    unfolding h1_def by (rule walked_enter[OF m on])
  have ch: "childrenOf keys h1 = childrenOf keys h" by (rule walked_children[OF w0])
  from t have t1: "those (map (\<lambda>c. visits d (childrenOf keys h1) c (Some n))
      (childrenOf keys h1 n)) = Some vss" by (simp add: ch)
  from Suc.prems(2) vs have dr: "distinct (map fst (concat vss))"
    and nn: "n \<notin> fst ` set (concat vss)" by auto
  from Suc.prems(3) vs have orest: "\<forall>a \<in> fst ` set (concat vss). isObject h a" by simp
  then have o1: "\<forall>a \<in> fst ` set (concat vss). isObject h1 a"
    using walked_objects[OF w0] by blast
  have "\<exists>h'. walkAll (\<lambda>h2 c. replace d keys enter h2 c (Some n)) h1 (childrenOf keys h1 n)
            = Returns h' \<and> walked keys enter h1 (concat vss) h'"
    by (rule walkAll_walked[OF Suc.IH t1 dr o1])
  then obtain h2 where
    h2: "walkAll (\<lambda>h2 c. replace d keys enter h2 c (Some n)) h1 (childrenOf keys h1 n) = Returns h2"
    and w2: "walked keys enter h1 (concat vss) h2" by blast
  from orest have old: "\<forall>a \<in> fst ` set (concat vss). a < length h"
    using isObject_less by blast
  from nn have disj: "fst ` set [(n, p)] \<inter> fst ` set (concat vss) = {}" by simp
  have "walked keys enter h ([(n, p)] @ concat vss) h2"
    by (rule walked_trans[OF w0 w2 disj old])
  with e h2 vs show ?case by simp
qed

subsection \<open>Steps that keep the children of every node\<close>

lemma map_of_assign:
  "map_of (assign fs k v) k' = (if k' = k then Some v else map_of fs k')"
  by (induction fs) auto

lemma keys_assign:
  "set (map fst (assign fs k v)) = insert k (set (map fst fs))"
  by (induction fs) (force split: if_splits)+

lemma length_setProp [simp]: "length (setProp h a k v) = length h"
  by (simp add: setProp_def split: option.splits cell.splits)

lemma setProp_other: "b \<noteq> a \<Longrightarrow> setProp h a k v ! b = h ! b"
  by (simp add: setProp_def split: option.splits cell.splits)

lemma lookup_setProp_other: "b \<noteq> a \<Longrightarrow> lookup (setProp h a k v) b = lookup h b"
  by (simp add: lookup_def setProp_other)

lemma lookup_setProp_same:
  "lookup h a = Some (Object fs) \<Longrightarrow> lookup (setProp h a k v) a = Some (Object (assign fs k v))"
  by (simp add: lookup_def setProp_def split: if_splits)

lemma setProp_not_object:
  "\<not> isObject h a \<Longrightarrow> setProp h a k v = h"
  by (simp add: setProp_def isObject_def split: option.splits cell.splits)

lemma getProp_setProp:
  "getProp (setProp h a k v) b k' =
     (if b = a \<and> k' = k \<and> isObject h a then v else getProp h b k')"
proof (cases "isObject h a")
  case False
  then show ?thesis by (simp add: setProp_not_object)
next
  case True
  then obtain fs where fs: "lookup h a = Some (Object fs)"
    by (auto simp: isObject_def split: option.splits cell.splits)
  show ?thesis
  proof (cases "b = a")
    case True
    with fs \<open>isObject h a\<close> show ?thesis
      by (simp add: getProp_def lookup_setProp_same map_of_assign)
  next
    case False
    then show ?thesis by (simp add: getProp_def lookup_setProp_other)
  qed
qed

lemma isObject_setProp [simp]: "isObject (setProp h a k v) b = isObject h b"
proof (cases "isObject h a")
  case False
  then show ?thesis by (simp add: setProp_not_object)
next
  case True
  then obtain fs where fs: "lookup h a = Some (Object fs)"
    by (auto simp: isObject_def split: option.splits cell.splits)
  show ?thesis
  proof (cases "b = a")
    case True
    with fs show ?thesis by (simp add: isObject_def lookup_setProp_same)
  next
    case False
    then show ?thesis by (simp add: isObject_def lookup_setProp_other)
  qed
qed

lemma lookup_setProp_Array:
  "(lookup (setProp h a k v) b = Some (Array xs)) = (lookup h b = Some (Array xs))"
proof (cases "isObject h a")
  case False
  then show ?thesis by (simp add: setProp_not_object)
next
  case True
  then obtain fs where fs: "lookup h a = Some (Object fs)"
    by (auto simp: isObject_def split: option.splits cell.splits)
  show ?thesis
  proof (cases "b = a")
    case True
    with fs show ?thesis by (simp add: lookup_setProp_same)
  next
    case False
    then show ?thesis by (simp add: lookup_setProp_other)
  qed
qed

lemma step_refl: "step keys n h h"
  by (simp add: step_def)

lemma nodeTag_step: "step keys n h h' \<Longrightarrow> nodeTag h' a = nodeTag h a"
  by (simp add: step_def nodeTag_def)

lemma step_trans:
  assumes "step keys n h h1" and "step keys n h1 h2"
  shows "step keys n h h2"
proof -
  note t = nodeTag_step[OF assms(1)]
  from assms show ?thesis
    unfolding step_def
    apply (intro conjI allI impI)
         apply simp
        apply (metis less_le_trans)
       apply simp
      apply (metis t)
     apply simp
    apply simp
    done
qed

lemma step_setProp:
  assumes "k \<noteq> ''type''" and "\<forall>t. k \<notin> set (keys t)"
  shows "step keys n h (setProp h n k v)"
  using assms
  by (auto simp: step_def setProp_other getProp_setProp lookup_setProp_Array)

lemma getProp_append_old:
  "a < length h \<Longrightarrow> getProp (h @ e) a k = getProp h a k"
  by (simp add: getProp_def lookup_def nth_append)

lemma getProp_out_of_range: "length h \<le> a \<Longrightarrow> getProp h a k = Undefined"
  by (simp add: getProp_def lookup_def)

lemma nodeTag_out_of_range: "length h \<le> a \<Longrightarrow> nodeTag h a = None"
  by (simp add: nodeTag_def getProp_out_of_range)

lemma step_alloc:
  assumes "''type'' \<notin> fst ` set fs"
  shows "step keys n h (h @ [Object fs])"
proof -
  have ty: "getProp (h @ [Object fs]) a ''type'' = getProp h a ''type''" for a
  proof (cases "a < length h")
    case True
    then show ?thesis by (simp add: getProp_append_old)
  next
    case False
    then have "a = length h \<or> length h < a" by auto
    then show ?thesis
    proof
      assume "a = length h"
      moreover from assms have "map_of fs ''type'' = None" by (simp add: map_of_eq_None_iff)
      ultimately show ?thesis by (simp add: getProp_def lookup_def)
    next
      assume "length h < a"
      then show ?thesis by (simp add: getProp_def lookup_def)
    qed
  qed
  have ks: "getProp (h @ [Object fs]) a k = getProp h a k" if "nodeTag h a \<noteq> None" for a k
  proof -
    from that have "a < length h" using nodeTag_out_of_range[of h a] by (cases "a < length h") auto
    then show ?thesis by (simp add: getProp_append_old)
  qed
  have ar: "(lookup (h @ [Object fs]) b = Some (Array xs)) = (lookup h b = Some (Array xs))" for b xs
    by (auto simp: lookup_def nth_append split: if_splits)
  have ob: "isObject (h @ [Object fs]) a" if "isObject h a" for a
    using that by (auto simp: isObject_def lookup_def nth_append split: if_splits)
  show ?thesis
    unfolding step_def using ty ks ar ob by (simp add: nth_append)
qed

lemma isNode_step: "step keys n h h' \<Longrightarrow> isNode h' v = isNode h v"
  by (simp add: isNode_def nodeTag_step split: jsval.splits)

lemma candidates_step:
  assumes s: "step keys n h h'" and tag: "nodeTag h a \<noteq> None" and k: "k \<in> set (keys t)"
  shows "candidates h' a k = candidates h a k"
proof -
  from s tag k have g: "getProp h' a k = getProp h a k" unfolding step_def by blast
  from s have ar: "\<And>b xs. (lookup h' b = Some (Array xs)) = (lookup h b = Some (Array xs))"
    unfolding step_def by blast
  have nd: "isNode h' = isNode h" using isNode_step[OF s] by (intro ext)
  show ?thesis
  proof (cases "getProp h a k")
    case (Ref b)
    show ?thesis
    proof (cases "\<exists>xs. lookup h b = Some (Array xs)")
      case True
      then obtain xs where xs: "lookup h b = Some (Array xs)" by blast
      with ar have "lookup h' b = Some (Array xs)" by simp
      with xs Ref g nd show ?thesis by (simp add: candidates_def)
    next
      case False
      with ar have "\<not> (\<exists>xs. lookup h' b = Some (Array xs))" by simp
      with False Ref g nd show ?thesis
        by (auto simp: candidates_def split: option.splits cell.splits)
    qed
  qed (simp_all add: candidates_def g)
qed

lemma childrenOf_step:
  assumes s: "step keys n h h'"
  shows "childrenOf keys h' a = childrenOf keys h a"
proof (cases "nodeTag h a")
  case None
  then show ?thesis by (simp add: childrenOf_def nodeTag_step[OF s])
next
  case (Some t)
  then have "nodeTag h a \<noteq> None" by simp
  from candidates_step[OF s this] have "map (candidates h' a) (keys t) = map (candidates h a) (keys t)"
    by (intro map_cong) simp_all
  then have "concat (map (candidates h' a) (keys t)) = concat (map (candidates h a) (keys t))"
    by (rule arg_cong)
  with Some show ?thesis by (simp only: childrenOf_def nodeTag_step[OF s] option.case)
qed

subsection \<open>The two callbacks, and the list of visits\<close>

lemma step_length: "step keys n h h' \<Longrightarrow> length h \<le> length h'"
  by (simp add: step_def)

lemma step_frame: "step keys n h h' \<Longrightarrow> a < length h \<Longrightarrow> a \<noteq> n \<Longrightarrow> h' ! a = h ! a"
  by (simp add: step_def)

lemma step_objects: "step keys n h h' \<Longrightarrow> isObject h a \<Longrightarrow> isObject h' a"
  by (simp add: step_def)

lemma modest_of_step:
  assumes r: "\<And>h n p. isObject h n \<Longrightarrow> snd (enter h n p) = n"
    and s: "\<And>h n p. isObject h n \<Longrightarrow> step keys n h (fst (enter h n p))"
  shows "modest keys enter"
  unfolding modest_def
proof (intro allI impI conjI)
  fix h n p assume o: "isObject h n"
  note st = s[OF o, of p]
  show "snd (enter h n p) = n" by (rule r[OF o])
  show "length h \<le> length (fst (enter h n p))" by (rule step_length[OF st])
  show "childrenOf keys (fst (enter h n p)) a = childrenOf keys h a" for a
    by (rule childrenOf_step[OF st])
  show "fst (enter h n p) ! a = h ! a" if "a < length h" "a \<noteq> n" for a
    by (rule step_frame[OF st that])
  show "isObject (fst (enter h n p)) a" if "isObject h a" for a
    by (rule step_objects[OF st that])
qed

lemma modest_parentizeNode:
  assumes "\<forall>t. ''parentNode'' \<notin> set (keys t)"
  shows "modest keys parentizeNode"
proof (rule modest_of_step)
  fix h n p
  show "snd (parentizeNode h n p) = n" by (simp add: parentizeNode_def)
  have "step keys n h (setProp h n ''parentNode'' (Ref (case p of Some q \<Rightarrow> q | None \<Rightarrow> n)))"
    using assms by (intro step_setProp) simp_all
  then show "step keys n h (fst (parentizeNode h n p))" by (simp add: parentizeNode_def)
qed

lemma enterNode_eq:
  "enterNode primary h n p =
     (let h1 = setProp h n ''parentNode'' (Ref (case p of Some q \<Rightarrow> q | None \<Rightarrow> n));
          h2 = (if isLiteralNode h1 (Ref n) = Inr True
                then setProp (h1 @ [Object [(''content'', getProp h1 n ''raw''),
                                            (''precedence'', primary)]])
                       n ''x-verbatim-property'' (Ref (length h1))
                else h1)
      in (setProp (h2 @ [Object [(''ignoredNode'', Bool False)]]) n ''metadata'' (Ref (length h2)),
          n))"
  by (simp add: enterNode_def parentizeNode_def addXVerbatimPropertyTo_def NodeMetadata_set_def
      alloc_def Let_def)

lemma enterNode_step:
  assumes "\<forall>t. ''parentNode'' \<notin> set (keys t)" and "\<forall>t. ''x-verbatim-property'' \<notin> set (keys t)"
    and "\<forall>t. ''metadata'' \<notin> set (keys t)"
  shows "step keys n h (fst (enterNode primary h n p))"
proof -
  define h1 where "h1 = setProp h n ''parentNode'' (Ref (case p of Some q \<Rightarrow> q | None \<Rightarrow> n))"
  define x where "x = Object [(''content'', getProp h1 n ''raw''), (''precedence'', primary)]"
  define h2 where "h2 = (if isLiteralNode h1 (Ref n) = Inr True
     then setProp (h1 @ [x]) n ''x-verbatim-property'' (Ref (length h1)) else h1)"
  define m where "m = Object [(''ignoredNode'', Bool False)]"
  define h3 where "h3 = setProp (h2 @ [m]) n ''metadata'' (Ref (length h2))"
  have e: "fst (enterNode primary h n p) = h3"
    unfolding enterNode_eq h1_def h2_def h3_def x_def m_def Let_def by simp
  have s1: "step keys n h h1"
    unfolding h1_def using assms(1) by (intro step_setProp) simp_all
  have s2: "step keys n h1 h2"
  proof (cases "isLiteralNode h1 (Ref n) = Inr True")
    case True
    have a: "step keys n h1 (h1 @ [x])"
      unfolding x_def by (intro step_alloc) simp
    have b: "step keys n (h1 @ [x]) (setProp (h1 @ [x]) n ''x-verbatim-property'' (Ref (length h1)))"
      using assms(2) by (intro step_setProp) simp_all
    from step_trans[OF a b] True show ?thesis unfolding h2_def by simp
  next
    case False
    then show ?thesis by (simp add: h2_def step_refl)
  qed
  have a: "step keys n h2 (h2 @ [m])"
    unfolding m_def by (intro step_alloc) simp
  have b: "step keys n (h2 @ [m]) h3"
    unfolding h3_def using assms(3) by (intro step_setProp) simp_all
  show ?thesis
    unfolding e by (rule step_trans[OF step_trans[OF s1 s2] step_trans[OF a b]])
qed

lemma modest_enterNode:
  assumes "\<forall>t. ''parentNode'' \<notin> set (keys t)" and "\<forall>t. ''x-verbatim-property'' \<notin> set (keys t)"
    and "\<forall>t. ''metadata'' \<notin> set (keys t)"
  shows "modest keys (enterNode primary)"
proof (rule modest_of_step)
  fix h n p
  show "snd (enterNode primary h n p) = n"
    by (simp add: enterNode_eq Let_def)
  show "step keys n h (fst (enterNode primary h n p))"
    by (rule enterNode_step[OF assms])
qed

lemma those_eq_Some: "those xs = Some ys \<longleftrightarrow> xs = map Some ys"
proof (induction xs arbitrary: ys)
  case Nil
  then show ?case by auto
next
  case (Cons x xs)
  show ?case
    by (auto simp del: those.simps simp: those_Cons_Some Cons.IH Cons_eq_map_conv)
qed

lemma those_map_D:
  assumes "those (map f cs) = Some vss"
  shows "vss = map (\<lambda>c. the (f c)) cs" and "\<And>c. c \<in> set cs \<Longrightarrow> f c = Some (the (f c))"
proof -
  from assms have m: "map f cs = map Some vss" by (simp add: those_eq_Some)
  then have l: "length vss = length cs" by (metis length_map)
  have n: "f (cs ! i) = Some (vss ! i)" if "i < length cs" for i
    using m that l by (metis nth_map)
  show "vss = map (\<lambda>c. the (f c)) cs"
    by (rule nth_equalityI) (simp_all add: l n)
  show "f c = Some (the (f c))" if "c \<in> set cs" for c
    using that n by (auto simp: in_set_conv_nth)
qed

lemma visits_head:
  "visits d ch n p = Some vs \<Longrightarrow> \<exists>rest. vs = (n, p) # rest"
  by (cases d) (auto split: option.splits)

lemma visits_members:
  "visits d ch n p = Some vs \<Longrightarrow> (c, x) \<in> set vs
     \<Longrightarrow> (c = n \<and> x = p) \<or> (\<exists>q. x = Some q \<and> q \<in> fst ` set vs \<and> c \<in> set (ch q))"
proof (induction d arbitrary: n p vs)
  case 0
  then show ?case by simp
next
  case (Suc d)
  from Suc.prems(1) obtain vss where
    t: "those (map (\<lambda>c. visits d ch c (Some n)) (ch n)) = Some vss"
    and vs: "vs = (n, p) # concat vss"
    by (auto split: option.splits)
  note D = those_map_D[OF t]
  show ?case
  proof (cases "(c, x) = (n, p)")
    case True
    then show ?thesis by simp
  next
    case False
    with Suc.prems(2) vs have "(c, x) \<in> set (concat vss)" by auto
    then obtain k where k: "k \<in> set (ch n)"
      and cx: "(c, x) \<in> set (the (visits d ch k (Some n)))"
      unfolding D(1) by auto
    from D(2)[OF k] have v: "visits d ch k (Some n) = Some (the (visits d ch k (Some n)))" .
    have sub: "set (the (visits d ch k (Some n))) \<subseteq> set vs"
      unfolding vs D(1) using k by auto
    from Suc.IH[OF v cx] show ?thesis
    proof
      assume "c = k \<and> x = Some n"
      with k vs show ?thesis by auto
    next
      assume "\<exists>q. x = Some q \<and> q \<in> fst ` set (the (visits d ch k (Some n))) \<and> c \<in> set (ch q)"
      with sub show ?thesis by blast
    qed
  qed
qed

lemma visits_children:
  "visits d ch n p = Some vs \<Longrightarrow> q \<in> fst ` set vs \<Longrightarrow> c \<in> set (ch q) \<Longrightarrow> (c, Some q) \<in> set vs"
proof (induction d arbitrary: n p vs)
  case 0
  then show ?case by simp
next
  case (Suc d)
  from Suc.prems(1) obtain vss where
    t: "those (map (\<lambda>c. visits d ch c (Some n)) (ch n)) = Some vss"
    and vs: "vs = (n, p) # concat vss"
    by (auto split: option.splits)
  note D = those_map_D[OF t]
  have sub: "set (the (visits d ch k (Some n))) \<subseteq> set vs" if "k \<in> set (ch n)" for k
    unfolding vs D(1) using that by auto
  show ?case
  proof (cases "q = n")
    case True
    with Suc.prems(3) have k: "c \<in> set (ch n)" by simp
    from D(2)[OF k] visits_head obtain rest where
      "the (visits d ch c (Some n)) = (c, Some n) # rest" by metis
    with sub[OF k] True show ?thesis by auto
  next
    case False
    with Suc.prems(2) vs have "q \<in> fst ` set (concat vss)" by auto
    then obtain k where k: "k \<in> set (ch n)"
      and qk: "q \<in> fst ` set (the (visits d ch k (Some n)))"
      unfolding D(1) by auto
    from Suc.IH[OF D(2)[OF k] qk Suc.prems(3)] sub[OF k] show ?thesis by blast
  qed
qed

section \<open>Parent links\<close>

lemma lookup_nth_eq:
  "a < length h \<Longrightarrow> a < length h' \<Longrightarrow> h' ! a = h ! a \<Longrightarrow> lookup h' a = lookup h a"
  by (simp add: lookup_def)

lemma getProp_lookup_cong: "lookup h' a = lookup h a \<Longrightarrow> getProp h' a k = getProp h a k"
  by (simp add: getProp_def)

lemma isObject_lookup_cong: "lookup h' a = lookup h a \<Longrightarrow> isObject h' a = isObject h a"
  by (simp add: isObject_def)

lemma walkAll_invariant:
  assumes "\<And>h c h'. P h \<Longrightarrow> f h c = Returns h' \<Longrightarrow> P h'"
  shows "P h \<Longrightarrow> walkAll f h cs = Returns h' \<Longrightarrow> P h'"
proof (induction cs arbitrary: h)
  case Nil
  then show ?case by simp
next
  case (Cons c cs)
  from Cons.prems(2) obtain h1 where 1: "f h c = Returns h1" and 2: "walkAll f h1 cs = Returns h'"
    by (auto split: outcome.splits)
  from assms[OF Cons.prems(1) 1] have "P h1" .
  from Cons.IH[OF this 2] show ?case .
qed

lemma replace_invariant:
  assumes "\<And>h n p. P h \<Longrightarrow> P (fst (enter h n p))"
  shows "P h \<Longrightarrow> replace d keys enter h n p = Returns h' \<Longrightarrow> P h'"
proof (induction d arbitrary: h n p h')
  case 0
  then show ?case by simp
next
  case (Suc d)
  obtain h1 t where e: "enter h n p = (h1, t)" by (cases "enter h n p")
  with assms[OF Suc.prems(1), of n p] have p1: "P h1" by simp
  from Suc.prems(2) e have w: "walkAll (\<lambda>h2 c. replace d keys enter h2 c (Some t)) h1
      (childrenOf keys h1 t) = Returns h'" by simp
  show ?case
    by (rule walkAll_invariant[where P = P, OF _ p1 w]) (rule Suc.IH)
qed

lemma isNode_isObject: "isNode h (Ref a) \<Longrightarrow> isObject h a"
  by (auto simp: isNode_def nodeTag_def getProp_def isObject_def
      split: option.splits cell.splits jsval.splits)

lemma in_refsOf: "a \<in> set (refsOf vs) \<longleftrightarrow> Ref a \<in> set vs"
  by (induction vs rule: refsOf.induct) auto

lemma candidates_isNode:
  assumes "c \<in> set (candidates h n k)"
  shows "isNode h (Ref c)"
proof (cases "getProp h n k")
  case (Ref b)
  show ?thesis
  proof (cases "lookup h b")
    case None
    with Ref assms show ?thesis by (simp add: candidates_def split: if_splits)
  next
    case (Some cl)
    show ?thesis
    proof (cases cl)
      case (Array xs)
      with Ref Some assms have "Ref c \<in> set (filter (isNode h) xs)"
        by (simp add: candidates_def in_refsOf)
      then show ?thesis by simp
    qed (use Ref Some assms in \<open>simp_all add: candidates_def split: if_splits\<close>)
  qed
qed (use assms in \<open>simp_all add: candidates_def\<close>)

lemma childrenOf_isNode: "c \<in> set (childrenOf keys h n) \<Longrightarrow> isNode h (Ref c)"
  by (auto simp: childrenOf_def candidates_isNode split: option.splits)

lemma visits_objects:
  assumes "visits d (childrenOf keys h) r p = Some vs" and "isObject h r"
    and "a \<in> fst ` set vs"
  shows "isObject h a"
proof -
  from assms(3) obtain x where "(a, x) \<in> set vs" by auto
  from visits_members[OF assms(1) this] show ?thesis
    using assms(2) childrenOf_isNode isNode_isObject by blast
qed

lemma walked_trace:
  assumes w: "walked keys enter h vs h'" and m: "(a, q) \<in> set vs" and o: "isObject h a"
    and g: "\<And>h. length h \<le> length (fst (enter h a q))"
  shows "\<exists>ha. length h \<le> length ha \<and> lookup ha a = lookup h a
          \<and> lookup h' a = lookup (fst (enter ha a q)) a
          \<and> (\<forall>b. length ha \<le> b \<longrightarrow> b < length (fst (enter ha a q))
                 \<longrightarrow> lookup h' b = lookup (fst (enter ha a q)) b)"
proof -
  from w have "\<forall>x \<in> set vs. case x of (a, q) \<Rightarrow> \<exists>ha.
          length h \<le> length ha \<and> ha ! a = h ! a
        \<and> length (fst (enter ha a q)) \<le> length h'
        \<and> (\<forall>b. (b = a \<or> length ha \<le> b) \<and> b < length (fst (enter ha a q))
               \<longrightarrow> h' ! b = fst (enter ha a q) ! b)"
    unfolding walked_def by (elim conjE)
  from bspec[OF this m] obtain ha where l: "length h \<le> length ha" and c: "ha ! a = h ! a"
    and l': "length (fst (enter ha a q)) \<le> length h'"
    and t: "\<And>b. (b = a \<or> length ha \<le> b) \<Longrightarrow> b < length (fst (enter ha a q))
               \<Longrightarrow> h' ! b = fst (enter ha a q) ! b"
    unfolding prod.case by blast
  from o have a: "a < length h" by (rule isObject_less)
  with l have a': "a < length ha" by simp
  with g[of ha] have a'': "a < length (fst (enter ha a q))" by simp
  have 1: "lookup ha a = lookup h a" using a a' c by (intro lookup_nth_eq)
  have 2: "lookup h' b = lookup (fst (enter ha a q)) b"
    if "b = a \<or> length ha \<le> b" "b < length (fst (enter ha a q))" for b
  proof -
    from that(2) l' have "b < length h'" by simp
    with t[OF that] that(2) show ?thesis by (simp add: lookup_def)
  qed
  show ?thesis
  proof (intro exI[of _ ha] conjI allI impI)
    show "length h \<le> length ha" by (rule l)
    show "lookup ha a = lookup h a" by (rule 1)
    show "lookup h' a = lookup (fst (enter ha a q)) a" by (rule 2) (simp_all add: a'')
    show "lookup h' b = lookup (fst (enter ha a q)) b"
      if "length ha \<le> b" "b < length (fst (enter ha a q))" for b
      by (rule 2) (simp_all add: that)
  qed
qed

lemma walked_parentizeNode:
  assumes w: "walked keys parentizeNode h vs h'" and m: "(a, q) \<in> set vs" and o: "isObject h a"
  shows "getProp h' a k =
     (if k = ''parentNode'' then Ref (case q of Some p \<Rightarrow> p | None \<Rightarrow> a) else getProp h a k)"
proof -
  define v where "v = Ref (case q of Some p \<Rightarrow> p | None \<Rightarrow> a)"
  have f: "fst (parentizeNode ha a q) = setProp ha a ''parentNode'' v" for ha
    by (simp add: parentizeNode_def v_def)
  have "\<exists>ha. length h \<le> length ha \<and> lookup ha a = lookup h a
          \<and> lookup h' a = lookup (fst (parentizeNode ha a q)) a
          \<and> (\<forall>b. length ha \<le> b \<longrightarrow> b < length (fst (parentizeNode ha a q))
                 \<longrightarrow> lookup h' b = lookup (fst (parentizeNode ha a q)) b)"
    by (rule walked_trace[OF w m o]) (simp add: f)
  then obtain ha where 1: "lookup ha a = lookup h a"
    and raw2: "lookup h' a = lookup (fst (parentizeNode ha a q)) a"
    by (elim exE conjE)
  note 2 = raw2[unfolded f]
  from o have oa: "isObject ha a" unfolding isObject_lookup_cong[OF 1] .
  have 3: "getProp h' a k = getProp (setProp ha a ''parentNode'' v) a k"
    using 2 by (rule getProp_lookup_cong)
  have 4: "getProp (setProp ha a ''parentNode'' v) a k
      = (if k = ''parentNode'' then v else getProp ha a k)"
    using oa by (simp add: getProp_setProp)
  have 5: "getProp ha a k = getProp h a k" using 1 by (rule getProp_lookup_cong)
  have "getProp h' a k = (if k = ''parentNode'' then v else getProp h a k)"
    by (simp only: 3 4 5)
  then show ?thesis by (simp only: v_def)
qed

subsection \<open>Stores that differ in parent links only\<close>

lemma ownFields_assign_parent: "ownFields (assign fs ''parentNode'' v) = ownFields fs"
  unfolding ownFields_def by (induction fs) auto

lemma distinct_assign: "distinct (map fst (assign fs k v)) = distinct (map fst fs)"
proof (induction fs)
  case Nil
  then show ?case by simp
next
  case (Cons p fs)
  have "fst ` set (assign fs k v) = insert k (fst ` set fs)"
    using keys_assign[of fs k v] by simp
  with Cons show ?case by (cases p) auto
qed

lemma relinked_refl: "relinked h h"
  by (simp add: relinked_def)

lemma relinked_trans:
  assumes "relinked h h1" and "relinked h1 h2"
  shows "relinked h h2"
  unfolding relinked_def
proof (intro conjI allI impI)
  from assms show "length h2 = length h" by (simp add: relinked_def)
  fix a assume a: "a < length h"
  with assms(1) have 1: "h1 ! a = h ! a
          \<or> (\<exists>fs fs'. h ! a = Object fs \<and> h1 ! a = Object fs'
                \<and> ownFields fs' = ownFields fs
                \<and> distinct (map fst fs') = distinct (map fst fs))"
    unfolding relinked_def by blast
  from assms(1) a have "a < length h1" by (simp add: relinked_def)
  with assms(2) have 2: "h2 ! a = h1 ! a
          \<or> (\<exists>fs fs'. h1 ! a = Object fs \<and> h2 ! a = Object fs'
                \<and> ownFields fs' = ownFields fs
                \<and> distinct (map fst fs') = distinct (map fst fs))"
    unfolding relinked_def by blast
  from 1 2 show "h2 ! a = h ! a
          \<or> (\<exists>fs fs'. h ! a = Object fs \<and> h2 ! a = Object fs'
                \<and> ownFields fs' = ownFields fs
                \<and> distinct (map fst fs') = distinct (map fst fs))"
    by (elim disjE exE conjE) (simp_all, metis cell.inject(1))
qed

lemma relinked_setProp: "relinked h (setProp h n ''parentNode'' v)"
proof (cases "lookup h n")
  case None
  then show ?thesis by (simp add: setProp_def relinked_refl)
next
  case (Some c)
  show ?thesis
  proof (cases c)
    case (Object fs)
    with Some have n: "n < length h" "h ! n = Object fs"
      by (simp_all add: lookup_def split: if_splits)
    have s: "setProp h n ''parentNode'' v = h[n := Object (assign fs ''parentNode'' v)]"
      using Some Object by (simp add: setProp_def)
    show ?thesis
      unfolding relinked_def s using n
      by (auto simp: nth_list_update ownFields_assign_parent distinct_assign)
  qed (use Some in \<open>simp_all add: setProp_def relinked_refl\<close>)
qed

lemma relinked_lookup:
  assumes "relinked h h'" and "lookup h a = Some c"
  shows "lookup h' a = Some c
      \<or> (\<exists>fs fs'. c = Object fs \<and> lookup h' a = Some (Object fs')
            \<and> ownFields fs' = ownFields fs
            \<and> distinct (map fst fs') = distinct (map fst fs))"
proof -
  from assms(2) have a: "a < length h" and c: "h ! a = c"
    by (simp_all add: lookup_def split: if_splits)
  from assms(1) a have l: "a < length h'" by (simp add: relinked_def)
  from assms(1) a have "h' ! a = h ! a
          \<or> (\<exists>fs fs'. h ! a = Object fs \<and> h' ! a = Object fs'
                \<and> ownFields fs' = ownFields fs
                \<and> distinct (map fst fs') = distinct (map fst fs))"
    unfolding relinked_def by blast
  with l c show ?thesis by (auto simp: lookup_def)
qed

lemma replace_relinked:
  assumes "replace d keys parentizeNode h n p = Returns h'"
  shows "relinked h h'"
proof (rule replace_invariant[where P = "relinked h", OF _ relinked_refl assms])
  fix h1 n p assume "relinked h h1"
  moreover have "relinked h1 (fst (parentizeNode h1 n p))"
    by (simp add: parentizeNode_def relinked_setProp)
  ultimately show "relinked h (fst (parentizeNode h1 n p))" by (rule relinked_trans)
qed

lemma parentize_tree:
  assumes keys: "\<forall>t. ''parentNode'' \<notin> set (keys t)"
    and tree: "visits d (childrenOf keys h) r None = Some vs"
    and dist: "distinct (map fst vs)"
    and root: "isObject h r"
  shows "\<exists>h'. parentizeAst d keys h r = Returns (h', r)
      \<and> getProp h' r ''parentNode'' = Ref r
      \<and> (\<forall>p \<in> fst ` set vs. \<forall>c \<in> set (childrenOf keys h' p).
            c \<in> fst ` set vs \<and> getProp h' c ''parentNode'' = Ref p)
      \<and> (\<forall>n \<in> fst ` set vs. n \<noteq> r \<longrightarrow>
            (\<exists>p \<in> fst ` set vs. n \<in> set (childrenOf keys h' p)))
      \<and> childrenOf keys h' = childrenOf keys h
      \<and> length h' = length h
      \<and> (\<forall>a k. k \<noteq> ''parentNode'' \<longrightarrow> getProp h' a k = getProp h a k)
      \<and> (\<forall>a. a \<notin> fst ` set vs \<longrightarrow> lookup h' a = lookup h a)
      \<and> relinked h h'"
proof -
  have objs: "\<forall>a \<in> fst ` set vs. isObject h a"
    using visits_objects[OF tree root] by blast
  from replace_walked[OF modest_parentizeNode[OF keys] tree dist objs]
  obtain h' where r: "replace d keys parentizeNode h r None = Returns h'"
    and w: "walked keys parentizeNode h vs h'" by blast
  have ch: "childrenOf keys h' = childrenOf keys h" by (rule walked_children[OF w])
  have len: "length h' = length h"
    by (rule replace_invariant[where P = "\<lambda>x. length x = length h", OF _ _ r])
      (simp_all add: parentizeNode_def)
  have link: "getProp h' a k =
     (if k = ''parentNode'' then Ref (case q of Some p \<Rightarrow> p | None \<Rightarrow> a) else getProp h a k)"
    if "(a, q) \<in> set vs" for a q k
  proof -
    from that have "a \<in> fst ` set vs" by force
    with objs have "isObject h a" by blast
    from walked_parentizeNode[OF w that this] show ?thesis .
  qed
  from visits_head[OF tree] have rv: "(r, None) \<in> set vs" by auto
  have 1: "getProp h' r ''parentNode'' = Ref r" using link[OF rv] by simp
  have 2: "c \<in> fst ` set vs \<and> getProp h' c ''parentNode'' = Ref p"
    if "p \<in> fst ` set vs" "c \<in> set (childrenOf keys h' p)" for p c
  proof -
    from that(2) have "c \<in> set (childrenOf keys h p)" by (simp add: ch)
    from visits_children[OF tree that(1) this] have m: "(c, Some p) \<in> set vs" .
    then have "c \<in> fst ` set vs" by force
    with link[OF m] show ?thesis by simp
  qed
  have 3: "\<exists>p \<in> fst ` set vs. n \<in> set (childrenOf keys h' p)"
    if "n \<in> fst ` set vs" "n \<noteq> r" for n
  proof -
    from that(1) obtain x where "(n, x) \<in> set vs" by auto
    from visits_members[OF tree this] that(2) show ?thesis by (auto simp: ch)
  qed
  have 4: "getProp h' a k = getProp h a k" if k: "k \<noteq> ''parentNode''" for a k
  proof (cases "a \<in> fst ` set vs")
    case True
    then obtain q where "(a, q) \<in> set vs" by auto
    from link[OF this] k show ?thesis by simp
  next
    case False
    show ?thesis
    proof (cases "a < length h")
      case True
      with False w have "h' ! a = h ! a" unfolding walked_def by blast
      with True len have "lookup h' a = lookup h a" by (intro lookup_nth_eq) simp_all
      then show ?thesis by (rule getProp_lookup_cong)
    next
      case False
      then show ?thesis by (simp add: getProp_out_of_range len)
    qed
  qed
  show ?thesis
  proof (intro exI[of _ h'] conjI)
    show "parentizeAst d keys h r = Returns (h', r)" using r by (simp add: parentizeAst_def)
    show "getProp h' r ''parentNode'' = Ref r" by (rule 1)
    show "\<forall>p \<in> fst ` set vs. \<forall>c \<in> set (childrenOf keys h' p).
            c \<in> fst ` set vs \<and> getProp h' c ''parentNode'' = Ref p"
      using 2 by blast
    show "\<forall>n \<in> fst ` set vs. n \<noteq> r \<longrightarrow>
            (\<exists>p \<in> fst ` set vs. n \<in> set (childrenOf keys h' p))"
      using 3 by blast
    show "childrenOf keys h' = childrenOf keys h" by (rule ch)
    show "length h' = length h" by (rule len)
    show "\<forall>a k. k \<noteq> ''parentNode'' \<longrightarrow> getProp h' a k = getProp h a k" using 4 by blast
    show "\<forall>a. a \<notin> fst ` set vs \<longrightarrow> lookup h' a = lookup h a"
    proof (intro allI impI)
      fix a assume a: "a \<notin> fst ` set vs"
      show "lookup h' a = lookup h a"
      proof (cases "a < length h")
        case True
        with a w have "h' ! a = h ! a" unfolding walked_def by blast
        with True len show ?thesis by (intro lookup_nth_eq) simp_all
      next
        case False
        then show ?thesis by (simp add: lookup_def len)
      qed
    qed
    show "relinked h h'" by (rule replace_relinked[OF r])
  qed
qed

text \<open>
  Claim C2. Let the store hold a tree below the object \<open>r\<close>: following the child
  properties from \<open>r\<close> ends within \<open>d\<close> levels and meets no node twice. Then
  \<open>parentizeAst\<close> returns \<open>r\<close>, and in the store it leaves the \<open>parentNode\<close> of
  \<open>r\<close> is \<open>r\<close> itself, while the \<open>parentNode\<close> of every child of every node of
  the tree is that node; every node other than \<open>r\<close> is such a child. Nothing but
  \<open>parentNode\<close> properties has changed. (The table of child properties must not list
  \<open>parentNode\<close> itself.)
\<close>

theorem parentizeAst_links:
  assumes keys: "\<forall>t. ''parentNode'' \<notin> set (keys t)"
    and tree: "visits d (childrenOf keys h) r None = Some vs"
    and dist: "distinct (map fst vs)"
    and root: "isObject h r"
  shows "\<exists>h'. parentizeAst d keys h r = Returns (h', r)
      \<and> getProp h' r ''parentNode'' = Ref r
      \<and> (\<forall>p \<in> fst ` set vs. \<forall>c \<in> set (childrenOf keys h' p).
            c \<in> fst ` set vs \<and> getProp h' c ''parentNode'' = Ref p)
      \<and> (\<forall>n \<in> fst ` set vs. n \<noteq> r \<longrightarrow>
            (\<exists>p \<in> fst ` set vs. n \<in> set (childrenOf keys h' p)))
      \<and> childrenOf keys h' = childrenOf keys h
      \<and> length h' = length h
      \<and> (\<forall>a k. k \<noteq> ''parentNode'' \<longrightarrow> getProp h' a k = getProp h a k)"
proof -
  from parentize_tree[OF keys tree dist root] obtain h' where
    1: "parentizeAst d keys h r = Returns (h', r)"
    and 2: "getProp h' r ''parentNode'' = Ref r"
    and 3: "\<forall>p \<in> fst ` set vs. \<forall>c \<in> set (childrenOf keys h' p).
            c \<in> fst ` set vs \<and> getProp h' c ''parentNode'' = Ref p"
    and 4: "\<forall>n \<in> fst ` set vs. n \<noteq> r \<longrightarrow>
            (\<exists>p \<in> fst ` set vs. n \<in> set (childrenOf keys h' p))"
    and 5: "childrenOf keys h' = childrenOf keys h"
    and 6: "length h' = length h"
    and 7: "\<forall>a k. k \<noteq> ''parentNode'' \<longrightarrow> getProp h' a k = getProp h a k"
    by (elim exE conjE)
  show ?thesis by (intro exI[of _ h'] conjI) (rule 1 2 3 4 5 6 7)+
qed


lemma tripleNegation_children:
  "childrenOf sampleKeys (fst tripleNegation) 7 = [5]"
  "childrenOf sampleKeys (fst tripleNegation) 5 = [3]"
  "childrenOf sampleKeys (fst tripleNegation) 3 = [1]"
  "childrenOf sampleKeys (fst tripleNegation) 1 = []"
  "childrenOf sampleKeys (fst tripleNegation) (Suc 0) = []"
  by (simp_all add: tripleNegation_eq childrenOf_def nodeTag_def getProp_def lookup_def
      sampleKeys_def candidates_def isNode_def)

lemma tripleNegation_visits:
  "visits 4 (childrenOf sampleKeys (fst tripleNegation)) 7 None =
     Some [(7, None), (5, Some 7), (3, Some 5), (1, Some 3)]"
proof -
  have 4: "(4::nat) = Suc (Suc (Suc (Suc 0)))" by simp
  show ?thesis unfolding 4 by (simp add: tripleNegation_children)
qed

theorem parentizeAst_links_witness:
  "\<exists>h'. parentizeAst 4 sampleKeys (fst tripleNegation) 7 = Returns (h', 7)
     \<and> getProp h' 7 ''parentNode'' = Ref 7
     \<and> getProp h' 5 ''parentNode'' = Ref 7
     \<and> getProp h' 3 ''parentNode'' = Ref 5
     \<and> getProp h' 1 ''parentNode'' = Ref 3
     \<and> getProp h' 1 ''name'' = Str ''x''"
proof -
  define h where "h = fst tripleNegation"
  have k: "\<forall>t. ''parentNode'' \<notin> set (sampleKeys t)" by (simp add: sampleKeys_def)
  have v: "visits 4 (childrenOf sampleKeys h) 7 None =
     Some [(7, None), (5, Some 7), (3, Some 5), (1, Some 3)]"
    unfolding h_def by (rule tripleNegation_visits)
  have d: "distinct (map fst [(7::nat, None::nat option), (5, Some 7), (3, Some 5), (1, Some 3)])"
    by simp
  have o: "isObject h 7" by (simp add: h_def tripleNegation_eq isObject_def lookup_def)
  have x: "getProp h 1 ''name'' = Str ''x''"
    by (simp add: h_def tripleNegation_eq getProp_def lookup_def)
  from parentizeAst_links[OF k v d o] obtain h' where
    r: "parentizeAst 4 sampleKeys h 7 = Returns (h', 7)"
    and root: "getProp h' 7 ''parentNode'' = Ref 7"
    and kids: "\<forall>p \<in> fst ` set [(7::nat, None::nat option), (5, Some 7), (3, Some 5), (1, Some 3)].
        \<forall>c \<in> set (childrenOf sampleKeys h' p).
          c \<in> fst ` set [(7::nat, None::nat option), (5, Some 7), (3, Some 5), (1, Some 3)]
          \<and> getProp h' c ''parentNode'' = Ref p"
    and ch: "childrenOf sampleKeys h' = childrenOf sampleKeys h"
    and frame: "\<forall>a k. k \<noteq> ''parentNode'' \<longrightarrow> getProp h' a k = getProp h a k"
    by (elim exE conjE)
  note c = tripleNegation_children[folded h_def]
  from kids have 5: "getProp h' 5 ''parentNode'' = Ref 7"
    and 3: "getProp h' 3 ''parentNode'' = Ref 5"
    and 1: "getProp h' 1 ''parentNode'' = Ref 3"
    unfolding ch by (simp_all add: c)
  from frame x have "getProp h' 1 ''name'' = Str ''x''" by simp
  with r root 5 3 1 show ?thesis unfolding h_def by (intro exI[of _ h']) simp
qed

section \<open>Conversion of source text\<close>

lemma isObject_append: "isObject h a \<Longrightarrow> isObject (h @ e) a"
  by (auto simp: isObject_def lookup_def nth_append split: if_splits)

lemma lookup_append_old: "a < length h \<Longrightarrow> lookup (h @ e) a = lookup h a"
  by (simp add: lookup_def nth_append)

lemma isLiteralNode_getProp:
  "isLiteralNode h (Ref a) = Inr (getProp h a ''type'' = Str ''Literal'')"
  by (simp add: isLiteralNode_def hasType_def)

lemma enterNode_effect:
  fixes primary :: jsval and q :: "addr option"
  assumes o: "isObject h a"
  defines "h3 \<equiv> fst (enterNode primary h a q)"
  shows "getProp h3 a ''parentNode'' = Ref (case q of Some p \<Rightarrow> p | None \<Rightarrow> a)"
    and "\<exists>m. getProp h3 a ''metadata'' = Ref m \<and> length h \<le> m \<and> m < length h3
           \<and> lookup h3 m = Some (Object [(''ignoredNode'', Bool False)])"
    and "isLiteralNode h (Ref a) = Inr True \<Longrightarrow>
           \<exists>x. getProp h3 a ''x-verbatim-property'' = Ref x \<and> length h \<le> x \<and> x < length h3
             \<and> lookup h3 x = Some (Object [(''content'', getProp h a ''raw''),
                                              (''precedence'', primary)])"
    and "k \<noteq> ''parentNode'' \<Longrightarrow> k \<noteq> ''metadata'' \<Longrightarrow> k \<noteq> ''x-verbatim-property''
           \<Longrightarrow> getProp h3 a k = getProp h a k"
    and "length h \<le> length h3"
proof -
  from o have a: "a < length h" by (rule isObject_less)
  define v where "v = Ref (case q of Some p \<Rightarrow> p | None \<Rightarrow> a)"
  define h1 where "h1 = setProp h a ''parentNode'' v"
  define x where "x = Object [(''content'', getProp h1 a ''raw''), (''precedence'', primary)]"
  define lit where "lit = (isLiteralNode h1 (Ref a) = Inr True)"
  define h2 where "h2 = (if lit
     then setProp (h1 @ [x]) a ''x-verbatim-property'' (Ref (length h1)) else h1)"
  define m where "m = Object [(''ignoredNode'', Bool False)]"
  have e: "h3 = setProp (h2 @ [m]) a ''metadata'' (Ref (length h2))"
    unfolding h3_def enterNode_eq h1_def h2_def x_def m_def v_def lit_def Let_def by simp
  have l1: "length h1 = length h" by (simp add: h1_def)
  have l2: "length h2 = (if lit then Suc (length h) else length h)" by (simp add: h2_def l1)
  have l3: "length h3 = Suc (length h2)" by (simp add: e)
  have o1: "isObject h1 a" using o by (simp add: h1_def)
  have o1x: "isObject (h1 @ [x]) a" using o1 by (rule isObject_append)
  have o2: "isObject h2 a" using o1 o1x by (simp add: h2_def)
  have o2m: "isObject (h2 @ [m]) a" using o2 by (rule isObject_append)
  have a1: "a < length h1" using a l1 by simp
  have a2: "a < length h2" using a l2 by simp
  have g1: "getProp h1 a k = (if k = ''parentNode'' then v else getProp h a k)" for k
    using o by (simp add: h1_def getProp_setProp)
  have g2: "getProp h2 a k = (if lit \<and> k = ''x-verbatim-property'' then Ref (length h)
      else getProp h1 a k)" for k
    using o1x a1 by (simp add: h2_def getProp_setProp getProp_append_old l1)
  have g3: "getProp h3 a k = (if k = ''metadata'' then Ref (length h2) else getProp h2 a k)" for k
    using o2m a2 by (simp add: e getProp_setProp getProp_append_old)
  have lit: "lit = (isLiteralNode h (Ref a) = Inr True)"
    by (simp add: lit_def isLiteralNode_getProp g1)
  show "getProp h3 a ''parentNode'' = Ref (case q of Some p \<Rightarrow> p | None \<Rightarrow> a)"
    by (simp add: g3 g2 g1 v_def)
  have "lookup h3 (length h2) = lookup (h2 @ [m]) (length h2)"
    unfolding e using a2 by (intro lookup_setProp_other) simp
  then have m3: "lookup h3 (length h2) = Some (Object [(''ignoredNode'', Bool False)])"
    by (simp add: m_def)
  have "length h \<le> length h2" by (simp add: l2)
  with m3 show "\<exists>m. getProp h3 a ''metadata'' = Ref m \<and> length h \<le> m \<and> m < length h3
           \<and> lookup h3 m = Some (Object [(''ignoredNode'', Bool False)])"
    by (intro exI[of _ "length h2"]) (simp add: g3 l3)
  show "\<exists>x. getProp h3 a ''x-verbatim-property'' = Ref x \<and> length h \<le> x \<and> x < length h3
             \<and> lookup h3 x = Some (Object [(''content'', getProp h a ''raw''),
                                              (''precedence'', primary)])"
    if "isLiteralNode h (Ref a) = Inr True"
  proof -
    from that lit have t: lit by simp
    then have h2: "h2 = setProp (h1 @ [x]) a ''x-verbatim-property'' (Ref (length h1))"
      by (simp add: h2_def)
    have "lookup h3 (length h) = lookup (h2 @ [m]) (length h)"
      unfolding e using a by (intro lookup_setProp_other) simp
    also have "\<dots> = lookup h2 (length h)"
      using t by (intro lookup_append_old) (simp add: l2)
    also have "\<dots> = lookup (h1 @ [x]) (length h)"
      unfolding h2 using a by (intro lookup_setProp_other) simp
    also have "\<dots> = Some x" using lookup_last[of h1 x] by (simp add: l1)
    finally have "lookup h3 (length h) = Some (Object [(''content'', getProp h a ''raw''),
        (''precedence'', primary)])"
      by (simp add: x_def g1)
    with t show ?thesis
      by (intro exI[of _ "length h"]) (simp add: g3 g2 l3 l2)
  qed
  show "getProp h3 a k = getProp h a k"
    if "k \<noteq> ''parentNode''" "k \<noteq> ''metadata''" "k \<noteq> ''x-verbatim-property''"
    using that by (simp add: g3 g2 g1)
  show "length h \<le> length h3" by (simp add: l3 l2)
qed


lemma walked_enterNode:
  assumes w: "walked keys (enterNode primary) h vs h'" and m: "(a, q) \<in> set vs"
    and o: "isObject h a"
  shows "getProp h' a ''parentNode'' = Ref (case q of Some p \<Rightarrow> p | None \<Rightarrow> a)"
    and "\<exists>m. getProp h' a ''metadata'' = Ref m \<and> length h \<le> m
           \<and> lookup h' m = Some (Object [(''ignoredNode'', Bool False)])"
    and "isLiteralNode h (Ref a) = Inr True \<Longrightarrow>
           \<exists>x. getProp h' a ''x-verbatim-property'' = Ref x \<and> length h \<le> x
             \<and> lookup h' x = Some (Object [(''content'', getProp h a ''raw''),
                                              (''precedence'', primary)])"
    and "k \<noteq> ''parentNode'' \<Longrightarrow> k \<noteq> ''metadata'' \<Longrightarrow> k \<noteq> ''x-verbatim-property''
           \<Longrightarrow> getProp h' a k = getProp h a k"
proof -
  have "\<exists>ha. length h \<le> length ha \<and> lookup ha a = lookup h a
          \<and> lookup h' a = lookup (fst (enterNode primary ha a q)) a
          \<and> (\<forall>b. length ha \<le> b \<longrightarrow> b < length (fst (enterNode primary ha a q))
                 \<longrightarrow> lookup h' b = lookup (fst (enterNode primary ha a q)) b)"
    by (rule walked_trace[OF w m o]) (simp add: enterNode_eq Let_def)
  then obtain ha where l: "length h \<le> length ha" and c: "lookup ha a = lookup h a"
    and na: "lookup h' a = lookup (fst (enterNode primary ha a q)) a"
    and nb: "\<And>b. length ha \<le> b \<Longrightarrow> b < length (fst (enterNode primary ha a q))
                 \<Longrightarrow> lookup h' b = lookup (fst (enterNode primary ha a q)) b"
    by (elim exE conjE) blast
  define h3 where "h3 = fst (enterNode primary ha a q)"
  from o have oa: "isObject ha a" unfolding isObject_lookup_cong[OF c] .
  have g: "getProp h' a k = getProp h3 a k" for k
    using na unfolding h3_def by (rule getProp_lookup_cong)
  have gh: "getProp ha a k = getProp h a k" for k
    using c by (rule getProp_lookup_cong)
  have lit: "isLiteralNode ha (Ref a) = isLiteralNode h (Ref a)"
    by (simp add: isLiteralNode_getProp gh)
  note eff = enterNode_effect[OF oa, where primary = primary and q = q, folded h3_def]
  show "getProp h' a ''parentNode'' = Ref (case q of Some p \<Rightarrow> p | None \<Rightarrow> a)"
    unfolding g by (rule eff(1))
  from eff(2) obtain mm where mm: "getProp h3 a ''metadata'' = Ref mm" "length ha \<le> mm"
    "mm < length h3" "lookup h3 mm = Some (Object [(''ignoredNode'', Bool False)])"
    by (elim exE conjE)
  from nb[OF mm(2) mm(3)[unfolded h3_def]] have "lookup h' mm = lookup h3 mm"
    by (simp add: h3_def)
  with mm l show "\<exists>m. getProp h' a ''metadata'' = Ref m \<and> length h \<le> m
           \<and> lookup h' m = Some (Object [(''ignoredNode'', Bool False)])"
    by (intro exI[of _ mm]) (simp add: g)
  show "\<exists>x. getProp h' a ''x-verbatim-property'' = Ref x \<and> length h \<le> x
             \<and> lookup h' x = Some (Object [(''content'', getProp h a ''raw''),
                                              (''precedence'', primary)])"
    if "isLiteralNode h (Ref a) = Inr True"
  proof -
    from that lit have "isLiteralNode ha (Ref a) = Inr True" by simp
    from eff(3)[OF this] obtain x where x: "getProp h3 a ''x-verbatim-property'' = Ref x"
      "length ha \<le> x" "x < length h3"
      "lookup h3 x = Some (Object [(''content'', getProp ha a ''raw''), (''precedence'', primary)])"
      by (elim exE conjE)
    from nb[OF x(2) x(3)[unfolded h3_def]] have "lookup h' x = lookup h3 x"
      by (simp add: h3_def)
    with x l show ?thesis
      by (intro exI[of _ x]) (simp add: g gh)
  qed
  show "getProp h' a k = getProp h a k"
    if "k \<noteq> ''parentNode''" "k \<noteq> ''metadata''" "k \<noteq> ''x-verbatim-property''"
    unfolding g using eff(4)[OF that] by (simp add: gh)
qed

text \<open>
  Claim C8. Let the parser accept the source text and build a tree below the program
  node. Then \<open>convertCodeToStructure\<close> returns the \<open>body\<close> of the program, the
  very sequence the parser built, with its elements as they were. In the store it
  leaves, the program is its own \<open>parentNode\<close> and every child of every node of the
  tree has that node as \<open>parentNode\<close>; every node has as \<open>metadata\<close> an object
  \<open>{ ignoredNode: false }\<close>; every literal has as verbatim annotation an object whose
  \<open>content\<close> is the \<open>raw\<close> text the parser gave the literal and whose
  \<open>precedence\<close> is the primary one; and no other property of a node has changed.
  (The table of child properties must list none of the three properties that the
  conversion writes.)
\<close>

theorem convertCodeToStructure_annotates:
  assumes k1: "\<forall>t. ''parentNode'' \<notin> set (keys t)"
    and k2: "\<forall>t. ''x-verbatim-property'' \<notin> set (keys t)"
    and k3: "\<forall>t. ''metadata'' \<notin> set (keys t)"
    and parsed: "parse code h = Inr (h1, program)"
    and tree: "visits d (childrenOf keys h1) program None = Some vs"
    and dist: "distinct (map fst vs)"
    and root: "isObject h1 program"
  shows "\<exists>h2. convertCodeToStructure d parse keys primary h code
                = Returns (h2, getProp h1 program ''body'')
      \<and> (\<forall>b xs. lookup h1 b = Some (Array xs) \<longrightarrow> lookup h2 b = Some (Array xs))
      \<and> childrenOf keys h2 = childrenOf keys h1
      \<and> getProp h2 program ''parentNode'' = Ref program
      \<and> (\<forall>p \<in> fst ` set vs. \<forall>c \<in> set (childrenOf keys h2 p).
            c \<in> fst ` set vs \<and> getProp h2 c ''parentNode'' = Ref p)
      \<and> (\<forall>n \<in> fst ` set vs.
            (\<exists>m. getProp h2 n ''metadata'' = Ref m
                 \<and> lookup h2 m = Some (Object [(''ignoredNode'', Bool False)]))
          \<and> (isLiteralNode h1 (Ref n) = Inr True \<longrightarrow>
                (\<exists>x. getProp h2 n ''x-verbatim-property'' = Ref x
                   \<and> lookup h2 x = Some (Object [(''content'', getProp h1 n ''raw''),
                                                    (''precedence'', primary)])))
          \<and> (\<forall>k. k \<noteq> ''parentNode'' \<longrightarrow> k \<noteq> ''metadata'' \<longrightarrow> k \<noteq> ''x-verbatim-property''
                 \<longrightarrow> getProp h2 n k = getProp h1 n k))"
proof -
  have objs: "\<forall>a \<in> fst ` set vs. isObject h1 a"
    using visits_objects[OF tree root] by blast
  from replace_walked[OF modest_enterNode[OF k1 k2 k3] tree dist objs]
  obtain h2 where r: "replace d keys (enterNode primary) h1 program None = Returns h2"
    and w: "walked keys (enterNode primary) h1 vs h2" by blast
  have ch: "childrenOf keys h2 = childrenOf keys h1" by (rule walked_children[OF w])
  from visits_head[OF tree] have rv: "(program, None) \<in> set vs" by auto
  have body: "getProp h2 program ''body'' = getProp h1 program ''body''"
    by (rule walked_enterNode(4)[OF w rv root]) simp_all
  have arr: "lookup h2 b = Some (Array xs)" if b: "lookup h1 b = Some (Array xs)" for b xs
  proof -
    from b have bl: "b < length h1" by (simp add: lookup_def split: if_splits)
    from b have "\<not> isObject h1 b" by (simp add: isObject_def)
    with objs have "b \<notin> fst ` set vs" by blast
    with w bl have "h2 ! b = h1 ! b" and "length h1 \<le> length h2" unfolding walked_def by blast+
    with bl have "lookup h2 b = lookup h1 b" by (intro lookup_nth_eq) simp_all
    with b show ?thesis by simp
  qed
  have link: "c \<in> fst ` set vs \<and> getProp h2 c ''parentNode'' = Ref p"
    if "p \<in> fst ` set vs" "c \<in> set (childrenOf keys h2 p)" for p c
  proof -
    from that(2) have "c \<in> set (childrenOf keys h1 p)" by (simp add: ch)
    from visits_children[OF tree that(1) this] have m: "(c, Some p) \<in> set vs" .
    then have c: "c \<in> fst ` set vs" by force
    with objs have "isObject h1 c" by blast
    from walked_enterNode(1)[OF w m this] c show ?thesis by simp
  qed
  have each: "(\<exists>m. getProp h2 n ''metadata'' = Ref m
                 \<and> lookup h2 m = Some (Object [(''ignoredNode'', Bool False)]))
          \<and> (isLiteralNode h1 (Ref n) = Inr True \<longrightarrow>
                (\<exists>x. getProp h2 n ''x-verbatim-property'' = Ref x
                   \<and> lookup h2 x = Some (Object [(''content'', getProp h1 n ''raw''),
                                                    (''precedence'', primary)])))
          \<and> (\<forall>k. k \<noteq> ''parentNode'' \<longrightarrow> k \<noteq> ''metadata'' \<longrightarrow> k \<noteq> ''x-verbatim-property''
                 \<longrightarrow> getProp h2 n k = getProp h1 n k)"
    if "n \<in> fst ` set vs" for n
  proof -
    from that obtain q where m: "(n, q) \<in> set vs" by auto
    from that objs have o: "isObject h1 n" by blast
    note e = walked_enterNode[OF w m o]
    from e(2) have 1: "\<exists>m. getProp h2 n ''metadata'' = Ref m
                 \<and> lookup h2 m = Some (Object [(''ignoredNode'', Bool False)])" by blast
    from e(3) have 2: "isLiteralNode h1 (Ref n) = Inr True \<longrightarrow>
                (\<exists>x. getProp h2 n ''x-verbatim-property'' = Ref x
                   \<and> lookup h2 x = Some (Object [(''content'', getProp h1 n ''raw''),
                                                    (''precedence'', primary)]))" by blast
    from e(4) have 3: "\<forall>k. k \<noteq> ''parentNode'' \<longrightarrow> k \<noteq> ''metadata'' \<longrightarrow> k \<noteq> ''x-verbatim-property''
                 \<longrightarrow> getProp h2 n k = getProp h1 n k" by blast
    from 1 2 3 show ?thesis by (intro conjI)
  qed
  show ?thesis
  proof (intro exI[of _ h2] conjI)
    show "convertCodeToStructure d parse keys primary h code
                = Returns (h2, getProp h1 program ''body'')"
      using parsed r body by (simp add: convertCodeToStructure_def)
    show "\<forall>b xs. lookup h1 b = Some (Array xs) \<longrightarrow> lookup h2 b = Some (Array xs)"
      using arr by blast
    show "childrenOf keys h2 = childrenOf keys h1" by (rule ch)
    show "getProp h2 program ''parentNode'' = Ref program"
      using walked_enterNode(1)[OF w rv root] by simp
    show "\<forall>p \<in> fst ` set vs. \<forall>c \<in> set (childrenOf keys h2 p).
            c \<in> fst ` set vs \<and> getProp h2 c ''parentNode'' = Ref p"
      using link by blast
    show "\<forall>n \<in> fst ` set vs.
            (\<exists>m. getProp h2 n ''metadata'' = Ref m
                 \<and> lookup h2 m = Some (Object [(''ignoredNode'', Bool False)]))
          \<and> (isLiteralNode h1 (Ref n) = Inr True \<longrightarrow>
                (\<exists>x. getProp h2 n ''x-verbatim-property'' = Ref x
                   \<and> lookup h2 x = Some (Object [(''content'', getProp h1 n ''raw''),
                                                    (''precedence'', primary)])))
          \<and> (\<forall>k. k \<noteq> ''parentNode'' \<longrightarrow> k \<noteq> ''metadata'' \<longrightarrow> k \<noteq> ''x-verbatim-property''
                 \<longrightarrow> getProp h2 n k = getProp h1 n k)"
      using each by blast
  qed
qed


lemma sampleProgram_children:
  "childrenOf sampleKeys (fst sampleProgram) 3 = [1]"
  "childrenOf sampleKeys (fst sampleProgram) 1 = [0]"
  "childrenOf sampleKeys (fst sampleProgram) (Suc 0) = [0]"
  "childrenOf sampleKeys (fst sampleProgram) 0 = []"
  by (simp_all add: sampleProgram_def childrenOf_def nodeTag_def getProp_def lookup_def
      sampleKeys_def candidates_def isNode_def)

lemma sampleProgram_visits:
  "visits 3 (childrenOf sampleKeys (fst sampleProgram)) 3 None =
     Some [(3, None), (1, Some 3), (0, Some 1)]"
proof -
  have 3: "visits 3 = visits (Suc (Suc (Suc 0)))" by (simp add: numeral_3_eq_3)
  show ?thesis unfolding 3 by (simp add: sampleProgram_children)
qed

theorem convertCodeToStructure_annotates_witness:
  "\<exists>h2. convertCodeToStructure 3 (\<lambda>code h. Inr sampleProgram) sampleKeys (Num 19) [] ''0x1F''
           = Returns (h2, Ref 2)
     \<and> lookup h2 2 = Some (Array [Ref 1])
     \<and> getProp h2 3 ''parentNode'' = Ref 3
     \<and> getProp h2 1 ''parentNode'' = Ref 3
     \<and> getProp h2 0 ''parentNode'' = Ref 1
     \<and> (\<exists>m. getProp h2 0 ''metadata'' = Ref m
            \<and> lookup h2 m = Some (Object [(''ignoredNode'', Bool False)]))
     \<and> (\<exists>x. getProp h2 0 ''x-verbatim-property'' = Ref x
            \<and> lookup h2 x = Some (Object [(''content'', Str ''0x1F''), (''precedence'', Num 19)]))
     \<and> getProp h2 0 ''raw'' = Str ''0x1F''"
proof -
  define h1 where "h1 = fst sampleProgram"
  define vs where "vs = [(3::nat, None::nat option), (1, Some 3), (0, Some 1)]"
  have k: "\<forall>t. ''parentNode'' \<notin> set (sampleKeys t)"
    "\<forall>t. ''x-verbatim-property'' \<notin> set (sampleKeys t)"
    "\<forall>t. ''metadata'' \<notin> set (sampleKeys t)"
    by (simp_all add: sampleKeys_def)
  have p: "(\<lambda>code h. Inr sampleProgram) ''0x1F'' [] = Inr (h1, 3)"
    by (simp add: h1_def sampleProgram_def)
  have v: "visits 3 (childrenOf sampleKeys h1) 3 None = Some vs"
    unfolding h1_def vs_def by (rule sampleProgram_visits)
  have d: "distinct (map fst vs)" by (simp add: vs_def)
  have o: "isObject h1 3" by (simp add: h1_def sampleProgram_def isObject_def lookup_def)
  have b: "getProp h1 3 ''body'' = Ref 2" and r: "getProp h1 0 ''raw'' = Str ''0x1F''"
    and a: "lookup h1 2 = Some (Array [Ref 1])"
    and l: "isLiteralNode h1 (Ref 0) = Inr True"
    by (simp_all add: h1_def sampleProgram_def getProp_def lookup_def isLiteralNode_getProp)
  note c = sampleProgram_children[folded h1_def]
  from convertCodeToStructure_annotates[where parse = "\<lambda>code h. Inr sampleProgram"
      and code = "''0x1F''" and h = "[]" and primary = "Num 19", OF k p v d o] obtain h2 where
    1: "convertCodeToStructure 3 (\<lambda>code h. Inr sampleProgram) sampleKeys (Num 19) [] ''0x1F''
           = Returns (h2, getProp h1 3 ''body'')"
    and 2: "\<forall>b xs. lookup h1 b = Some (Array xs) \<longrightarrow> lookup h2 b = Some (Array xs)"
    and ch: "childrenOf sampleKeys h2 = childrenOf sampleKeys h1"
    and 3: "getProp h2 3 ''parentNode'' = Ref 3"
    and 4: "\<forall>p \<in> fst ` set vs. \<forall>c \<in> set (childrenOf sampleKeys h2 p).
            c \<in> fst ` set vs \<and> getProp h2 c ''parentNode'' = Ref p"
    and 5: "\<forall>n \<in> fst ` set vs.
            (\<exists>m. getProp h2 n ''metadata'' = Ref m
                 \<and> lookup h2 m = Some (Object [(''ignoredNode'', Bool False)]))
          \<and> (isLiteralNode h1 (Ref n) = Inr True \<longrightarrow>
                (\<exists>x. getProp h2 n ''x-verbatim-property'' = Ref x
                   \<and> lookup h2 x = Some (Object [(''content'', getProp h1 n ''raw''),
                                                    (''precedence'', Num 19)])))
          \<and> (\<forall>k. k \<noteq> ''parentNode'' \<longrightarrow> k \<noteq> ''metadata'' \<longrightarrow> k \<noteq> ''x-verbatim-property''
                 \<longrightarrow> getProp h2 n k = getProp h1 n k)"
    by (elim exE conjE)
  from 2 a have A: "lookup h2 2 = Some (Array [Ref 1])" by blast
  from 4 have B: "getProp h2 1 ''parentNode'' = Ref 3" and C: "getProp h2 0 ''parentNode'' = Ref 1"
    unfolding ch by (simp_all add: c vs_def)
  have "0 \<in> fst ` set vs" by (simp add: vs_def)
  from bspec[OF 5 this] l r have D: "\<exists>m. getProp h2 0 ''metadata'' = Ref m
            \<and> lookup h2 m = Some (Object [(''ignoredNode'', Bool False)])"
    and E: "\<exists>x. getProp h2 0 ''x-verbatim-property'' = Ref x
            \<and> lookup h2 x = Some (Object [(''content'', Str ''0x1F''), (''precedence'', Num 19)])"
    and F: "getProp h2 0 ''raw'' = Str ''0x1F''"
    by simp_all
  from 1 b A 3 B C D E F show ?thesis
    by (intro exI[of _ h2] conjI) simp_all
qed


text \<open>
  Claim C3. For the source text \<open>0x1F\<close>, parsed to a program of one expression
  statement, \<open>convertCodeToStructure\<close> returns the statement with its literal
  annotated by the content \<open>0x1F\<close>. \<open>convertStructureToCode\<close> then calls the
  generator on the statement without the \<open>verbatim\<close> option: the text is what the
  generator gives without its verbatim extension, for the generator of the examples
  \<open>31;\<close> and not \<open>0x1F;\<close>, which the same generator gives when asked to use the
  annotation.
\<close>

theorem convertStructureToCode_hex:
  "\<exists>h2. convertCodeToStructure 3 (\<lambda>code h. Inr sampleProgram) sampleKeys prim [] ''0x1F''
           = Returns (h2, Ref 2)
     \<and> lookup h2 2 = Some (Array [Ref 1])
     \<and> getProp h2 1 ''expression'' = Ref 0
     \<and> getProp h2 0 ''value'' = Num 31
     \<and> annotation \<lparr>verbatim = Some ''x-verbatim-property'', sourceMapWithCode = True\<rparr> h2 0
         = Some ''0x1F''
     \<and> (\<forall>generate. convertStructureToCode generate h2 [Ref 1]
           = generate \<lparr>verbatim = None, sourceMapWithCode = True\<rparr> h2 (Ref 1))
     \<and> convertStructureToCode (sampleGenerate (\<lambda>v. ''31'')) h2 [Ref 1] = ''31;''
     \<and> sampleGenerate (\<lambda>v. ''31'')
         \<lparr>verbatim = Some ''x-verbatim-property'', sourceMapWithCode = True\<rparr> h2 (Ref 1)
         = ''0x1F;''"
proof -
  define h2 :: heap where "h2 =
    [Object [(''type'', Str ''Literal''), (''value'', Num 31), (''raw'', Str ''0x1F''),
             (''parentNode'', Ref 1), (''x-verbatim-property'', Ref 6), (''metadata'', Ref 7)],
     Object [(''type'', Str ''ExpressionStatement''), (''expression'', Ref 0),
             (''parentNode'', Ref 3), (''metadata'', Ref 5)],
     Array [Ref 1],
     Object [(''type'', Str ''Program''), (''body'', Ref 2), (''sourceType'', Str ''script''),
             (''parentNode'', Ref 3), (''metadata'', Ref 4)],
     Object [(''ignoredNode'', Bool False)],
     Object [(''ignoredNode'', Bool False)],
     Object [(''content'', Str ''0x1F''), (''precedence'', prim)],
     Object [(''ignoredNode'', Bool False)]]"
  have 3: "(3::nat) = Suc (Suc (Suc 0))" by simp
  have c: "convertCodeToStructure 3 (\<lambda>code h. Inr sampleProgram) sampleKeys prim [] ''0x1F''
           = Returns (h2, Ref 2)"
    unfolding 3 h2_def
    by (simp add: convertCodeToStructure_def sampleProgram_def enterNode_def parentizeNode_def
        setProp_def lookup_def childrenOf_def nodeTag_def getProp_def sampleKeys_def
        candidates_def isNode_def isLiteralNode_def hasType_def
        addXVerbatimPropertyTo_def NodeMetadata_set_def alloc_def Let_def)
  show ?thesis
    apply (rule exI[of _ h2], intro conjI)
           apply (rule c)
    by (simp_all add: h2_def convertStructureToCode_def sampleGenerate_def sampleExpression_def
        annotation_def getProp_def lookup_def)
qed

section \<open>Reading back: locality\<close>

lemma those_map_eq:
  assumes "those (map f xs) = Some ts" and "\<And>x. x \<in> set xs \<Longrightarrow> g x = f x"
  shows "those (map g xs) = Some ts"
proof -
  from assms(2) have "map g xs = map f xs" by (intro map_cong) simp_all
  with assms(1) show ?thesis by (simp only:)
qed

lemma those_map_nth:
  assumes "those (map f xs) = Some ts"
  shows "length ts = length xs" and "\<And>i. i < length xs \<Longrightarrow> f (xs ! i) = Some (ts ! i)"
proof -
  from assms have m: "map f xs = map Some ts" by (simp add: those_eq_Some)
  then show l: "length ts = length xs" by (metis length_map)
  show "f (xs ! i) = Some (ts ! i)" if "i < length xs" for i
    using m that l by (metis nth_map)
qed

lemma those_map_I:
  assumes "length ts = length xs" and "\<And>i. i < length xs \<Longrightarrow> f (xs ! i) = Some (ts ! i)"
  shows "those (map f xs) = Some ts"
  unfolding those_eq_Some using assms by (intro nth_equalityI) simp_all

lemma reify_Suc_Ref:
  "reify (Suc d) h (Ref a) =
     (case lookup h a of
        None \<Rightarrow> None
      | Some (RegExp p f) \<Rightarrow> Some (TRegExp a p f)
      | Some (Array xs) \<Rightarrow> map_option (TArray a) (those (map (reify d h) xs))
      | Some (Object fs) \<Rightarrow>
          if distinct (map fst fs)
          then map_option (\<lambda>ts. TObject a (zip (map fst (ownFields fs)) ts))
                 (those (map (reify d h) (map snd (ownFields fs))))
          else None)"
  by simp

lemma reify_local:
  "reify d h v = Some t
   \<Longrightarrow> (\<And>a. a \<in> set (cellsOf t) \<union> set (regexpsOf t) \<Longrightarrow> lookup h' a = lookup h a)
   \<Longrightarrow> reify d h' v = Some t"
proof (induction d arbitrary: v t)
  case 0
  then show ?case by simp
next
  case (Suc d)
  show ?case
  proof (cases v)
    case (Ref a)
    show ?thesis
    proof (cases "lookup h a")
      case None
      with Suc.prems(1) Ref show ?thesis by simp
    next
      case (Some c)
      show ?thesis
      proof (cases c)
        case (RegExp p f)
        with Suc.prems(1) Ref Some have t: "t = TRegExp a p f" by simp
        with Suc.prems(2)[of a] Some have "lookup h' a = Some c" by simp
        with t RegExp Ref show ?thesis by simp
      next
        case (Array xs)
        with Suc.prems(1) Ref Some obtain ts where
          ts: "those (map (reify d h) xs) = Some ts" and t: "t = TArray a ts"
          by auto
        from t Suc.prems(2)[of a] Some have l: "lookup h' a = Some c" by simp
        note n = those_map_nth[OF ts]
        have "those (map (reify d h') xs) = Some ts"
        proof (rule those_map_I)
          show "length ts = length xs" by (rule n(1))
          fix i assume i: "i < length xs"
          show "reify d h' (xs ! i) = Some (ts ! i)"
          proof (rule Suc.IH[OF n(2)[OF i]])
            fix b assume "b \<in> set (cellsOf (ts ! i)) \<union> set (regexpsOf (ts ! i))"
            moreover from i n(1) have "ts ! i \<in> set ts" by simp
            ultimately have "b \<in> set (cellsOf t) \<union> set (regexpsOf t)"
              unfolding t by auto
            then show "lookup h' b = lookup h b" by (rule Suc.prems(2))
          qed
        qed
        with l t Array Ref show ?thesis by simp
      next
        case (Object fs)
        with Suc.prems(1) Ref Some obtain ts where
          d: "distinct (map fst fs)"
          and ts: "those (map (reify d h) (map snd (ownFields fs))) = Some ts"
          and t: "t = TObject a (zip (map fst (ownFields fs)) ts)"
          by (auto split: if_splits)
        from t Suc.prems(2)[of a] Some have l: "lookup h' a = Some c" by simp
        note n = those_map_nth[OF ts]
        have "those (map (reify d h') (map snd (ownFields fs))) = Some ts"
        proof (rule those_map_I)
          show "length ts = length (map snd (ownFields fs))" by (rule n(1))
          fix i assume i: "i < length (map snd (ownFields fs))"
          show "reify d h' (map snd (ownFields fs) ! i) = Some (ts ! i)"
          proof (rule Suc.IH[OF n(2)[OF i]])
            fix b assume b: "b \<in> set (cellsOf (ts ! i)) \<union> set (regexpsOf (ts ! i))"
            from i n(1) have "(map fst (ownFields fs) ! i, ts ! i)
                \<in> set (zip (map fst (ownFields fs)) ts)"
              by (auto simp: set_zip intro!: exI[of _ i])
            with b have "b \<in> set (cellsOf t) \<union> set (regexpsOf t)"
              unfolding t by force
            then show "lookup h' b = lookup h b" by (rule Suc.prems(2))
          qed
        qed
        with l t d Object Ref show ?thesis by simp
      qed
    qed
  qed (use Suc.prems(1) in auto)
qed


lemma cellsOf_zip:
  "length ks = length ts \<Longrightarrow> cellsOf (TObject a (zip ks ts)) = a # concat (map cellsOf ts)"
proof -
  assume l: "length ks = length ts"
  have "map (\<lambda>p. cellsOf (snd p)) (zip ks ts) = map cellsOf (map snd (zip ks ts))" by simp
  also have "\<dots> = map cellsOf ts" using l by (simp only: map_snd_zip)
  finally show ?thesis by simp
qed

lemma regexpsOf_zip:
  "length ks = length ts \<Longrightarrow> regexpsOf (TObject a (zip ks ts)) = concat (map regexpsOf ts)"
proof -
  assume l: "length ks = length ts"
  have "map (\<lambda>p. regexpsOf (snd p)) (zip ks ts) = map regexpsOf (map snd (zip ks ts))" by simp
  also have "\<dots> = map regexpsOf ts" using l by (simp only: map_snd_zip)
  finally show ?thesis by simp
qed

lemma shape_zip:
  "length ks = length ts \<Longrightarrow> shape (TObject a (zip ks ts)) = TObject 0 (zip ks (map shape ts))"
proof -
  assume l: "length ks = length ts"
  have "map (\<lambda>p. (fst p, shape (snd p))) (zip ks ts) = zip ks (map shape ts)"
    using l by (induction ks ts rule: list_induct2) simp_all
  then show ?thesis by simp
qed

lemma plain_zip:
  "length ks = length ts \<Longrightarrow> plain (TObject a (zip ks ts)) = list_all plain ts"
proof -
  assume l: "length ks = length ts"
  have "list_all (\<lambda>p. plain (snd p)) (zip ks ts) = list_all plain ts"
    using l by (induction ks ts rule: list_induct2) simp_all
  then show ?thesis by simp
qed

lemma reify_Suc_cases [consumes 1, case_names scalar regexp array object]:
  assumes "reify (Suc d) h v = Some t"
  obtains
    "\<forall>a. v \<noteq> Ref a" "cellsOf t = []" "regexpsOf t = []" "shape t = t" "plain t"
      "\<And>d' h'. reify (Suc d') h' v = Some t"
  | a p f where "v = Ref a" "lookup h a = Some (RegExp p f)" "t = TRegExp a p f"
  | a xs ts where "v = Ref a" "lookup h a = Some (Array xs)"
      "those (map (reify d h) xs) = Some ts" "t = TArray a ts"
  | a fs ts where "v = Ref a" "lookup h a = Some (Object fs)" "distinct (map fst fs)"
      "those (map (reify d h) (map snd (ownFields fs))) = Some ts"
      "t = TObject a (zip (map fst (ownFields fs)) ts)"
proof (cases v)
  case (Ref a)
  show ?thesis
  proof (cases "lookup h a")
    case None
    with assms Ref show ?thesis by simp
  next
    case (Some c)
    show ?thesis
    proof (cases c)
      case (Object fs)
      with assms Ref Some that(4)[of a fs] show ?thesis by (auto split: if_splits)
    next
      case (Array xs)
      with assms Ref Some that(3)[of a xs] show ?thesis by auto
    next
      case (RegExp p f)
      with assms Ref Some that(2)[of a p f] show ?thesis by auto
    qed
  qed
qed (use assms that(1) in auto)

lemma reify_kinds:
  "reify d h v = Some t \<Longrightarrow>
     (\<forall>a \<in> set (cellsOf t). \<exists>c. lookup h a = Some c \<and> (\<forall>p f. c \<noteq> RegExp p f))
   \<and> (\<forall>a \<in> set (regexpsOf t). \<exists>p f. lookup h a = Some (RegExp p f))"
proof (induction d arbitrary: v t)
  case 0
  then show ?case by simp
next
  case (Suc d)
  from Suc.prems show ?case
  proof (cases rule: reify_Suc_cases)
    case scalar
    then show ?thesis by simp
  next
    case (regexp a p f)
    then show ?thesis by simp
  next
    case (array a xs ts)
    note n = those_map_nth[OF array(3)]
    have "(\<forall>a \<in> set (cellsOf u). \<exists>c. lookup h a = Some c \<and> (\<forall>p f. c \<noteq> RegExp p f))
        \<and> (\<forall>a \<in> set (regexpsOf u). \<exists>p f. lookup h a = Some (RegExp p f))"
      if "u \<in> set ts" for u
    proof -
      from that obtain i where "i < length ts" "u = ts ! i" by (auto simp: in_set_conv_nth)
      with n show ?thesis using Suc.IH[of "xs ! i" u] by simp
    qed
    with array show ?thesis by auto
  next
    case (object a fs ts)
    note n = those_map_nth[OF object(4)]
    have "(\<forall>a \<in> set (cellsOf u). \<exists>c. lookup h a = Some c \<and> (\<forall>p f. c \<noteq> RegExp p f))
        \<and> (\<forall>a \<in> set (regexpsOf u). \<exists>p f. lookup h a = Some (RegExp p f))"
      if "u \<in> set ts" for u
    proof -
      from that obtain i where "i < length ts" "u = ts ! i" by (auto simp: in_set_conv_nth)
      with n show ?thesis using Suc.IH[of "map snd (ownFields fs) ! i" u] by simp
    qed
    moreover from n(1) have l: "length (map fst (ownFields fs)) = length ts" by simp
    have c: "cellsOf t = a # concat (map cellsOf ts)"
      unfolding object(5) by (rule cellsOf_zip[OF l])
    have r: "regexpsOf t = concat (map regexpsOf ts)"
      unfolding object(5) by (rule regexpsOf_zip[OF l])
    ultimately show ?thesis unfolding c r using object(2) by auto
  qed
qed

lemma reify_bound:
  assumes "reify d h v = Some t" and "a \<in> set (cellsOf t) \<union> set (regexpsOf t)"
  shows "a < length h"
proof -
  from reify_kinds[OF assms(1)] assms(2) have "\<exists>c. lookup h a = Some c" by auto
  then show ?thesis by (simp add: lookup_def split: if_splits)
qed

lemma reify_append:
  assumes "reify d h v = Some t"
  shows "reify d (h @ e) v = Some t"
proof (rule reify_local[OF assms])
  fix a assume "a \<in> set (cellsOf t) \<union> set (regexpsOf t)"
  from reify_bound[OF assms this] show "lookup (h @ e) a = lookup h a"
    by (simp add: lookup_def nth_append)
qed

lemma reify_mono:
  "reify d h v = Some t \<Longrightarrow> reify (d + k) h v = Some t"
proof (induction d arbitrary: v t)
  case 0
  then show ?case by simp
next
  case (Suc d)
  from Suc.prems show ?case
  proof (cases rule: reify_Suc_cases)
    case scalar
    then show ?thesis by simp
  next
    case (regexp a p f)
    then show ?thesis by simp
  next
    case (array a xs ts)
    note n = those_map_nth[OF array(3)]
    have "those (map (reify (d + k) h) xs) = Some ts"
      by (rule those_map_I) (simp_all add: n Suc.IH)
    with array show ?thesis by simp
  next
    case (object a fs ts)
    note n = those_map_nth[OF object(4)]
    have "those (map (reify (d + k) h) (map snd (ownFields fs))) = Some ts"
      by (rule those_map_I) (simp_all add: n Suc.IH del: length_map nth_map)
    with object show ?thesis by simp
  qed
qed

section \<open>Cloning\<close>

lemma those_Cons_map:
  "those (map f (x # xs)) = Some ts \<longleftrightarrow>
     (\<exists>t ts'. f x = Some t \<and> those (map f xs) = Some ts' \<and> ts = t # ts')"
  by (simp del: those.simps add: those_Cons_Some)

lemma mapClone_copied:
  assumes el: "\<And>x tx hc. x \<in> set xs \<Longrightarrow> reify j hc x = Some tx \<Longrightarrow> P tx \<Longrightarrow>
      \<exists>e y ty. g hc x = Returns (hc @ e, y) \<and> reify j (hc @ e) y = Some ty
        \<and> shape ty = shape tx \<and> distinct (cellsOf ty)
        \<and> set (cellsOf ty) = {length hc ..< length hc + length e}"
  shows "those (map (reify j h) xs) = Some txs \<Longrightarrow> list_all P txs \<Longrightarrow>
      \<exists>e ys tys. mapClone g h xs = Returns (h @ e, ys)
        \<and> those (map (reify j (h @ e)) ys) = Some tys
        \<and> map shape tys = map shape txs
        \<and> distinct (concat (map cellsOf tys))
        \<and> set (concat (map cellsOf tys)) = {length h ..< length h + length e}"
  using el
proof (induction xs arbitrary: h txs)
  case Nil
  then have "txs = []" by simp
  then show ?case by (intro exI[of _ "[]"]) simp
next
  case (Cons x xs)
  from Cons.prems(1) obtain tx txs' where
    x: "reify j h x = Some tx" and r: "those (map (reify j h) xs) = Some txs'"
    and txs: "txs = tx # txs'"
    unfolding those_Cons_map by blast
  from Cons.prems(2) txs have px: "P tx" and pr: "list_all P txs'" by simp_all
  from Cons.prems(3)[OF _ x px] obtain e1 y ty where
    g: "g h x = Returns (h @ e1, y)" and ry: "reify j (h @ e1) y = Some ty"
    and sy: "shape ty = shape tx" and dy: "distinct (cellsOf ty)"
    and cy: "set (cellsOf ty) = {length h ..< length h + length e1}"
    by auto
  have r1: "those (map (reify j (h @ e1)) xs) = Some txs'"
  proof (rule those_map_I)
    show "length txs' = length xs" by (rule those_map_nth(1)[OF r])
    show "reify j (h @ e1) (xs ! i) = Some (txs' ! i)" if "i < length xs" for i
      by (rule reify_append[OF those_map_nth(2)[OF r that]])
  qed
  have el': "\<And>x tx hc. x \<in> set xs \<Longrightarrow> reify j hc x = Some tx \<Longrightarrow> P tx \<Longrightarrow>
      \<exists>e y ty. g hc x = Returns (hc @ e, y) \<and> reify j (hc @ e) y = Some ty
        \<and> shape ty = shape tx \<and> distinct (cellsOf ty)
        \<and> set (cellsOf ty) = {length hc ..< length hc + length e}"
    using Cons.prems(3) by simp
  from Cons.IH[OF r1 pr el'] obtain e2 ys tys where
    m: "mapClone g (h @ e1) xs = Returns ((h @ e1) @ e2, ys)"
    and rs: "those (map (reify j ((h @ e1) @ e2)) ys) = Some tys"
    and ss: "map shape tys = map shape txs'"
    and ds: "distinct (concat (map cellsOf tys))"
    and cs: "set (concat (map cellsOf tys)) = {length (h @ e1) ..< length (h @ e1) + length e2}"
    by blast
  have ry': "reify j (h @ e1 @ e2) y = Some ty"
    using reify_append[OF ry, of e2] by simp
  have 1: "mapClone g h (x # xs) = Returns (h @ (e1 @ e2), y # ys)"
    using g m by simp
  have 2: "those (map (reify j (h @ (e1 @ e2))) (y # ys)) = Some (ty # tys)"
    unfolding those_Cons_map using ry' rs by simp
  have 3: "map shape (ty # tys) = map shape txs" using sy ss txs by simp
  have 4: "distinct (concat (map cellsOf (ty # tys)))"
    using dy ds cy cs by auto
  have 5: "set (concat (map cellsOf (ty # tys))) = {length h ..< length h + length (e1 @ e2)}"
    using cy cs by auto
  from 1 2 3 4 5 show ?case by blast
qed

lemma assign_fresh: "k \<notin> fst ` set c \<Longrightarrow> assign c k v = c @ [(k, v)]"
  by (induction c) auto

lemma fold_assign_fresh:
  "distinct (map fst (c @ kvs)) \<Longrightarrow> fold (\<lambda>p c. assign c (fst p) (snd p)) kvs c = c @ kvs"
proof (induction kvs arbitrary: c)
  case Nil
  then show ?case by simp
next
  case (Cons p kvs)
  from Cons.prems have f: "fst p \<notin> fst ` set c" by auto
  from Cons.prems have "distinct (map fst ((c @ [p]) @ kvs))" by simp
  from Cons.IH[OF this] show ?case by (simp add: assign_fresh[OF f])
qed

lemma cloneProperties_mapClone:
  "cloneProperties f h ps copy =
     (case mapClone (cloneValue f) h (map snd (ownFields ps)) of
        Returns (h', ys) \<Rightarrow>
          Returns (h', fold (\<lambda>p c. assign c (fst p) (snd p))
                         (zip (map fst (ownFields ps)) ys) copy)
      | Throws e \<Rightarrow> Throws e
      | Exhausted \<Rightarrow> Exhausted)"
proof (induction ps arbitrary: h copy)
  case Nil
  then show ?case by (simp add: ownFields_def)
next
  case (Cons p ps)
  obtain k v where p: "p = (k, v)" by (cases p)
  show ?case
    unfolding p
  proof (cases "k = ''parentNode''")
    case True
    then have o: "ownFields ((k, v) # ps) = ownFields ps" by (simp add: ownFields_def)
    from True show "cloneProperties f h ((k, v) # ps) copy =
     (case mapClone (cloneValue f) h (map snd (ownFields ((k, v) # ps))) of
        Returns (h', ys) \<Rightarrow>
          Returns (h', fold (\<lambda>p c. assign c (fst p) (snd p))
                         (zip (map fst (ownFields ((k, v) # ps))) ys) copy)
      | Throws e \<Rightarrow> Throws e
      | Exhausted \<Rightarrow> Exhausted)"
      unfolding o by (simp add: Cons.IH)
  next
    case False
    then have o: "ownFields ((k, v) # ps) = (k, v) # ownFields ps" by (simp add: ownFields_def)
    from False show "cloneProperties f h ((k, v) # ps) copy =
     (case mapClone (cloneValue f) h (map snd (ownFields ((k, v) # ps))) of
        Returns (h', ys) \<Rightarrow>
          Returns (h', fold (\<lambda>p c. assign c (fst p) (snd p))
                         (zip (map fst (ownFields ((k, v) # ps))) ys) copy)
      | Throws e \<Rightarrow> Throws e
      | Exhausted \<Rightarrow> Exhausted)"
      unfolding o by (simp add: Cons.IH split: outcome.splits prod.splits)
  qed
qed

lemma cloneValue_copied:
  assumes N: "\<And>j hc x tx. j \<le> k \<Longrightarrow> reify j hc x = Some tx \<Longrightarrow> isNodeOrNull tx \<Longrightarrow> plain tx
      \<Longrightarrow> \<exists>e y ty. f hc x = Returns (hc @ e, y) \<and> reify j (hc @ e) y = Some ty
            \<and> shape ty = shape tx \<and> distinct (cellsOf ty)
            \<and> set (cellsOf ty) = {length hc ..< length hc + length e}"
    and r: "reify k h x = Some tx" and p: "plain tx"
  shows "\<exists>e y ty. cloneValue f h x = Returns (h @ e, y) \<and> reify k (h @ e) y = Some ty
            \<and> shape ty = shape tx \<and> distinct (cellsOf ty)
            \<and> set (cellsOf ty) = {length h ..< length h + length e}"
proof -
  from r obtain j where k: "k = Suc j" by (cases k) auto
  from r[unfolded k] show ?thesis
  proof (cases rule: reify_Suc_cases)
    case scalar
    from scalar(1) have c: "cloneValue f h x = Returns (h @ [], x)"
      by (cases x) (simp_all add: cloneValue_def)
    from r have "reify k (h @ []) x = Some tx" by simp
    with c scalar(2) show ?thesis by (intro exI[of _ "[]"] exI[of _ x] exI[of _ tx]) simp
  next
    case (regexp a q fl)
    then have c: "cloneValue f h x = Returns (h @ [], x)"
      by (simp add: cloneValue_def)
    from r have "reify k (h @ []) x = Some tx" by simp
    with c regexp(3) show ?thesis by (intro exI[of _ "[]"] exI[of _ x] exI[of _ tx]) simp
  next
    case (array a xs ts)
    from p array(4) have pl: "list_all (\<lambda>u. isNodeOrNull u \<and> plain u) ts" by simp
    have "\<exists>e ys tys. mapClone f h xs = Returns (h @ e, ys)
        \<and> those (map (reify j (h @ e)) ys) = Some tys
        \<and> map shape tys = map shape ts
        \<and> distinct (concat (map cellsOf tys))
        \<and> set (concat (map cellsOf tys)) = {length h ..< length h + length e}"
    proof (rule mapClone_copied[where P = "\<lambda>u. isNodeOrNull u \<and> plain u", OF _ array(3) pl])
      fix x tx hc
      assume "reify j hc x = Some tx" "isNodeOrNull tx \<and> plain tx"
      then show "\<exists>e y ty. f hc x = Returns (hc @ e, y) \<and> reify j (hc @ e) y = Some ty
            \<and> shape ty = shape tx \<and> distinct (cellsOf ty)
            \<and> set (cellsOf ty) = {length hc ..< length hc + length e}"
        by (intro N) (simp_all add: k)
    qed
    then obtain e ys tys where m: "mapClone f h xs = Returns (h @ e, ys)"
      and rs: "those (map (reify j (h @ e)) ys) = Some tys"
      and ss: "map shape tys = map shape ts"
      and ds: "distinct (concat (map cellsOf tys))"
      and cs: "set (concat (map cellsOf tys)) = {length h ..< length h + length e}"
      by blast
    define b where "b = length (h @ e)"
    define ty where "ty = TArray b tys"
    have c: "cloneValue f h x = Returns (h @ (e @ [Array ys]), Ref b)"
      using array(1,2) m by (simp add: cloneValue_def alloc_def b_def)
    have rs': "those (map (reify j (h @ (e @ [Array ys]))) ys) = Some tys"
    proof (rule those_map_I)
      show "length tys = length ys" by (rule those_map_nth(1)[OF rs])
      show "reify j (h @ (e @ [Array ys])) (ys ! i) = Some (tys ! i)" if "i < length ys" for i
        using reify_append[OF those_map_nth(2)[OF rs that], of "[Array ys]"] by simp
    qed
    have l: "lookup (h @ (e @ [Array ys])) b = Some (Array ys)"
      using lookup_last[of "h @ e" "Array ys"] by (simp add: b_def)
    have 1: "reify k (h @ (e @ [Array ys])) (Ref b) = Some ty"
      unfolding k by (simp add: l rs' ty_def)
    have 2: "shape ty = shape tx" by (simp add: ty_def array(4) ss)
    have 3: "distinct (cellsOf ty)" using ds cs by (simp add: ty_def b_def)
    have 4: "set (cellsOf ty) = {length h ..< length h + length (e @ [Array ys])}"
      using cs by (auto simp: ty_def b_def)
    from c 1 2 3 4 show ?thesis by blast
  next
    case (object a fs ts)
    then have c: "cloneValue f h x = f h x" by (simp add: cloneValue_def)
    from object(5) have "isNodeOrNull tx" by simp
    from N[OF _ r this p] show ?thesis unfolding c by simp
  qed
qed


lemma ownFields_idem: "ownFields (ownFields fs) = ownFields fs"
  by (simp add: ownFields_def)

lemma ownFields_zip:
  assumes "length ys = length (ownFields fs)"
  shows "ownFields (zip (map fst (ownFields fs)) ys) = zip (map fst (ownFields fs)) ys"
proof -
  have "\<forall>p \<in> set (zip (map fst (ownFields fs)) ys). fst p \<noteq> ''parentNode''"
  proof
    fix p assume "p \<in> set (zip (map fst (ownFields fs)) ys)"
    then have "fst p \<in> set (map fst (ownFields fs))"
      using set_zip_leftD[of "fst p" "snd p" "map fst (ownFields fs)" ys] by simp
    then show "fst p \<noteq> ''parentNode''" by (auto simp: ownFields_def)
  qed
  then show ?thesis unfolding ownFields_def[of "zip _ _"] by (simp only: filter_True)
qed

lemma distinct_ownFields: "distinct (map fst fs) \<Longrightarrow> distinct (map fst (ownFields fs))"
  unfolding ownFields_def by (rule distinct_map_filter)

lemma cloneRecursive_copied:
  "reify d h v = Some t \<Longrightarrow> isNodeOrNull t \<Longrightarrow> plain t \<Longrightarrow> d \<le> d'
   \<Longrightarrow> \<exists>e v' t'. cloneRecursive d' h v = Returns (h @ e, v') \<and> reify d (h @ e) v' = Some t'
         \<and> shape t' = shape t \<and> distinct (cellsOf t')
         \<and> set (cellsOf t') = {length h ..< length h + length e}"
proof (induction d arbitrary: h v t d' rule: less_induct)
  case (less d)
  from less.prems(1) obtain k where d: "d = Suc k" by (cases d) auto
  with less.prems(4) obtain k' where d': "d' = Suc k'" and kk: "k \<le> k'" by (cases d') auto
  have N: "\<exists>e y ty. cloneRecursive k' hc x = Returns (hc @ e, y) \<and> reify j (hc @ e) y = Some ty
            \<and> shape ty = shape tx \<and> distinct (cellsOf ty)
            \<and> set (cellsOf ty) = {length hc ..< length hc + length e}"
    if "j \<le> k" "reify j hc x = Some tx" "isNodeOrNull tx" "plain tx" for j hc x tx
  proof (rule less.IH[OF _ that(2,3,4)])
    show "j < d" using that(1) d by simp
    show "j \<le> k'" using that(1) kk by simp
  qed
  from less.prems(1)[unfolded d] show ?case
  proof (cases rule: reify_Suc_cases)
    case scalar
    from scalar(1) less.prems(1,2) d have "v = Null" by (cases v) auto
    then have c: "cloneRecursive d' h v = Returns (h @ [], v)" by (simp add: d')
    from less.prems(1) have "reify d (h @ []) v = Some t" by simp
    with c scalar(2) show ?thesis by (intro exI[of _ "[]"] exI[of _ v] exI[of _ t]) simp
  next
    case (regexp a p f)
    with less.prems(2) show ?thesis by simp
  next
    case (array a xs ts)
    with less.prems(2) show ?thesis by simp
  next
    case (object a fs ts)
    define ks where "ks = map fst (ownFields fs)"
    have lts: "length ts = length (ownFields fs)"
      using those_map_nth(1)[OF object(4)] by simp
    then have lks: "length ks = length ts" by (simp add: ks_def)
    from less.prems(3) have pl: "list_all plain ts"
      unfolding object(5) by (simp only: plain_zip[OF lks[unfolded ks_def]])
    have "\<exists>e ys tys. mapClone (cloneValue (cloneRecursive k')) h (map snd (ownFields fs))
          = Returns (h @ e, ys)
        \<and> those (map (reify k (h @ e)) ys) = Some tys
        \<and> map shape tys = map shape ts
        \<and> distinct (concat (map cellsOf tys))
        \<and> set (concat (map cellsOf tys)) = {length h ..< length h + length e}"
    proof (rule mapClone_copied[where P = plain, OF _ object(4) pl])
      fix x tx hc
      assume a: "reify k hc x = Some tx" "plain tx"
      show "\<exists>e y ty. cloneValue (cloneRecursive k') hc x = Returns (hc @ e, y)
            \<and> reify k (hc @ e) y = Some ty
            \<and> shape ty = shape tx \<and> distinct (cellsOf ty)
            \<and> set (cellsOf ty) = {length hc ..< length hc + length e}"
        by (rule cloneValue_copied[where f = "cloneRecursive k'" and k = k, OF N a])
    qed
    then obtain e ys tys where
      m: "mapClone (cloneValue (cloneRecursive k')) h (map snd (ownFields fs)) = Returns (h @ e, ys)"
      and rs: "those (map (reify k (h @ e)) ys) = Some tys"
      and ss: "map shape tys = map shape ts"
      and ds: "distinct (concat (map cellsOf tys))"
      and cs: "set (concat (map cellsOf tys)) = {length h ..< length h + length e}"
      by blast
    from ss have ltys: "length tys = length ts" by (metis length_map)
    have lys: "length ys = length tys" using those_map_nth(1)[OF rs] by simp
    define copy where "copy = zip ks ys"
    have kc: "map fst copy = ks" and vc: "map snd copy = ys"
      unfolding copy_def using lys ltys lks by simp_all
    have dk: "distinct ks" unfolding ks_def by (rule distinct_ownFields[OF object(3)])
    have oc: "ownFields copy = copy"
      unfolding copy_def ks_def by (rule ownFields_zip) (simp add: lys ltys lts)
    have f: "fold (\<lambda>p c. assign c (fst p) (snd p)) copy [] = copy"
      using fold_assign_fresh[of "[]" copy] dk kc by simp
    define c where "c = length (h @ e)"
    define t' where "t' = TObject c (zip ks tys)"
    have op: "ownProperties h v = Inr fs"
      using object(1,2) by (simp add: ownProperties_def)
    have cl: "cloneRecursive d' h v = Returns (h @ (e @ [Object copy]), Ref c)"
      unfolding d' using object(1) op m f
      by (simp add: cloneProperties_mapClone alloc_def c_def copy_def ks_def)
    have rs': "those (map (reify k (h @ (e @ [Object copy]))) ys) = Some tys"
    proof (rule those_map_I)
      show "length tys = length ys" by (simp add: lys)
      show "reify k (h @ (e @ [Object copy])) (ys ! i) = Some (tys ! i)" if "i < length ys" for i
        using reify_append[OF those_map_nth(2)[OF rs that], of "[Object copy]"] by simp
    qed
    have l: "lookup (h @ (e @ [Object copy])) c = Some (Object copy)"
      using lookup_last[of "h @ e" "Object copy"] by (simp add: c_def)
    have 1: "reify d (h @ (e @ [Object copy])) (Ref c) = Some t'"
      unfolding d reify_Suc_Ref l by (simp add: oc kc vc dk rs' t'_def)
    have lk': "length ks = length tys" using lks ltys by simp
    have 2: "shape t' = shape t"
      unfolding t'_def object(5) ks_def[symmetric]
      by (simp only: shape_zip[OF lk'] shape_zip[OF lks] ss)
    have ce: "cellsOf t' = c # concat (map cellsOf tys)"
      unfolding t'_def by (rule cellsOf_zip[OF lk'])
    have 3: "distinct (cellsOf t')" using ds cs by (simp add: ce c_def)
    have 4: "set (cellsOf t') = {length h ..< length h + length (e @ [Object copy])}"
      using cs by (auto simp: ce c_def)
    from cl 1 2 3 4 show ?thesis by blast
  qed
qed

section \<open>A value without sharing is a tree for the walk\<close>

lemma candidates_nodesIn: "candidates h n k = nodesIn h (getProp h n k)"
  by (simp add: candidates_def nodesIn_def)

lemma inside_refl: "inside xs xs"
  by (simp add: inside_def)

lemma inside_Nil: "inside [] ys"
  by (simp add: inside_def)

lemma inside_trans: "inside xs ys \<Longrightarrow> inside ys zs \<Longrightarrow> inside xs zs"
  unfolding inside_def by (meson order_trans)

lemma inside_append: "inside a b \<Longrightarrow> inside c d \<Longrightarrow> inside (a @ c) (b @ d)"
  unfolding inside_def by (simp add: add_mono)

lemma inside_Cons: "inside xs ys \<Longrightarrow> inside (x # xs) (x # ys)"
  unfolding inside_def by simp

lemma inside_Cons_right: "inside xs ys \<Longrightarrow> inside xs (y # ys)"
  unfolding inside_def by (simp add: le_SucI)

lemma inside_append_right: "inside xs ys \<Longrightarrow> inside xs (zs @ ys)"
  unfolding inside_def by (simp add: trans_le_add2)

lemma inside_set: "inside xs ys \<Longrightarrow> set xs \<subseteq> set ys"
proof
  fix x assume w: "inside xs ys" and "x \<in> set xs"
  then have "count_list xs x \<noteq> 0" by (simp add: count_list_0_iff)
  with w have "count_list ys x \<noteq> 0" unfolding inside_def by (metis le_zero_eq)
  then show "x \<in> set ys" by (simp add: count_list_0_iff)
qed

lemma distinct_count_le: "distinct xs \<longleftrightarrow> (\<forall>x. count_list xs x \<le> 1)"
proof (induction xs)
  case Nil
  then show ?case by simp
next
  case (Cons a xs)
  show ?case
  proof
    assume d: "distinct (a # xs)"
    with Cons.IH have "\<forall>x. count_list xs x \<le> 1" and "count_list xs a = 0" by simp_all
    then show "\<forall>x. count_list (a # xs) x \<le> 1" by simp
  next
    assume c: "\<forall>x. count_list (a # xs) x \<le> 1"
    from c[rule_format, of a] have "count_list xs a = 0" by simp
    then have n: "a \<notin> set xs" by (simp add: count_list_0_iff)
    have "count_list xs x \<le> 1" for x
      using c[rule_format, of x] by (simp split: if_splits)
    with Cons.IH n show "distinct (a # xs)" by simp
  qed
qed

lemma inside_distinct: "inside xs ys \<Longrightarrow> distinct ys \<Longrightarrow> distinct xs"
  unfolding distinct_count_le inside_def by (meson order_trans)

lemma count_list_concat:
  "count_list (concat xss) x = sum_list (map (\<lambda>xs. count_list xs x) xss)"
  by (induction xss) simp_all

lemma inside_concat_map:
  assumes "\<And>z. z \<in> set zs \<Longrightarrow> inside (f z) (g z)"
  shows "inside (concat (map f zs)) (concat (map g zs))"
  using assms
proof (induction zs)
  case Nil
  then show ?case by (simp add: inside_refl)
next
  case (Cons z zs)
  then show ?case by (simp add: inside_append)
qed

lemma fields_split:
  "(case map_of kts key of Some u \<Rightarrow> g u | None \<Rightarrow> 0)
     + sum_list (map (\<lambda>p. g (snd p)) (filter (\<lambda>p. fst p \<noteq> key) kts))
   \<le> (sum_list (map (\<lambda>p. g (snd p)) kts) :: nat)"
  by (induction kts) (auto split: option.splits)

lemma sum_over_keys:
  "distinct ks \<Longrightarrow>
     sum_list (map (\<lambda>key. case map_of kts key of Some u \<Rightarrow> g u | None \<Rightarrow> 0) ks)
       \<le> (sum_list (map (\<lambda>p. g (snd p)) kts) :: nat)"
proof (induction ks arbitrary: kts)
  case Nil
  then show ?case by simp
next
  case (Cons key ks)
  define kts' where "kts' = filter (\<lambda>p. fst p \<noteq> key) kts"
  have m: "map_of kts' k = map_of kts k" if "k \<noteq> key" for k
    unfolding kts'_def using that by (induction kts) auto
  from Cons.prems have nk: "key \<notin> set ks" and dk: "distinct ks" by simp_all
  have eq: "map (\<lambda>key. case map_of kts key of Some u \<Rightarrow> g u | None \<Rightarrow> 0) ks
      = map (\<lambda>key. case map_of kts' key of Some u \<Rightarrow> g u | None \<Rightarrow> 0) ks"
  proof (rule map_cong[OF refl])
    fix k assume "k \<in> set ks"
    with nk have "k \<noteq> key" by auto
    from m[OF this] show "(case map_of kts k of Some u \<Rightarrow> g u | None \<Rightarrow> 0)
        = (case map_of kts' k of Some u \<Rightarrow> g u | None \<Rightarrow> 0)" by simp
  qed
  have "sum_list (map (\<lambda>key. case map_of kts key of Some u \<Rightarrow> g u | None \<Rightarrow> 0) ks)
      \<le> sum_list (map (\<lambda>p. g (snd p)) kts')"
    unfolding eq by (rule Cons.IH[OF dk])
  moreover have "(case map_of kts key of Some u \<Rightarrow> g u | None \<Rightarrow> 0)
     + sum_list (map (\<lambda>p. g (snd p)) kts') \<le> sum_list (map (\<lambda>p. g (snd p)) kts)"
    unfolding kts'_def by (rule fields_split)
  ultimately show ?case by simp
qed

lemma inside_over_keys:
  assumes d: "distinct ks"
    and w: "\<And>key. key \<in> set ks \<Longrightarrow>
              inside (W key) (case map_of kts key of Some u \<Rightarrow> cellsOf u | None \<Rightarrow> [])"
  shows "inside (concat (map W ks)) (concat (map (\<lambda>p. cellsOf (snd p)) kts))"
  unfolding inside_def
proof
  fix x
  have "count_list (concat (map W ks)) x = sum_list (map (\<lambda>key. count_list (W key) x) ks)"
    by (simp add: count_list_concat comp_def)
  also have "\<dots> \<le> sum_list (map (\<lambda>key. case map_of kts key of
      Some u \<Rightarrow> count_list (cellsOf u) x | None \<Rightarrow> 0) ks)"
  proof (rule sum_list_mono)
    fix key assume "key \<in> set ks"
    from w[OF this] show "count_list (W key) x
        \<le> (case map_of kts key of Some u \<Rightarrow> count_list (cellsOf u) x | None \<Rightarrow> 0)"
      unfolding inside_def by (auto split: option.splits dest: spec[of _ x])
  qed
  also have "\<dots> \<le> sum_list (map (\<lambda>p. count_list (cellsOf (snd p)) x) kts)"
    by (rule sum_over_keys[OF d])
  also have "\<dots> = count_list (concat (map (\<lambda>p. cellsOf (snd p)) kts)) x"
    by (simp add: count_list_concat comp_def)
  finally show "count_list (concat (map W ks)) x
      \<le> count_list (concat (map (\<lambda>p. cellsOf (snd p)) kts)) x" .
qed

lemma visits_mono:
  "visits j ch c p = Some vs \<Longrightarrow> j \<le> k \<Longrightarrow> visits k ch c p = Some vs"
proof (induction j arbitrary: k c p vs)
  case 0
  then show ?case by simp
next
  case (Suc j)
  from Suc.prems(2) obtain k' where k: "k = Suc k'" and jk: "j \<le> k'" by (cases k) auto
  from Suc.prems(1) obtain vss where
    t: "those (map (\<lambda>x. visits j ch x (Some c)) (ch c)) = Some vss"
    and vs: "vs = (c, p) # concat vss"
    by (auto split: option.splits)
  have "those (map (\<lambda>x. visits k' ch x (Some c)) (ch c)) = Some vss"
  proof (rule those_map_I)
    show "length vss = length (ch c)" by (rule those_map_nth(1)[OF t])
    show "visits k' ch (ch c ! i) (Some c) = Some (vss ! i)" if "i < length (ch c)" for i
      by (rule Suc.IH[OF those_map_nth(2)[OF t that] jk])
  qed
  with vs k show ?case by simp
qed

lemma map_of_ownFields:
  "key \<noteq> ''parentNode'' \<Longrightarrow> map_of (ownFields fs) key = map_of fs key"
  unfolding ownFields_def by (induction fs) auto

lemma reified_field:
  "those (map (reify k h) (map snd ofs)) = Some ts \<Longrightarrow> map_of ofs key = Some v
   \<Longrightarrow> \<exists>u. map_of (zip (map fst ofs) ts) key = Some u \<and> reify k h v = Some u"
proof (induction ofs arbitrary: ts)
  case Nil
  then show ?case by simp
next
  case (Cons p ofs)
  from Cons.prems(1) obtain t ts' where
    t: "reify k h (snd p) = Some t" and r: "those (map (reify k h) (map snd ofs)) = Some ts'"
    and ts: "ts = t # ts'"
    by (auto simp del: those.simps simp: those_Cons_Some)
  show ?case
  proof (cases "fst p = key")
    case True
    with Cons.prems(2) have "snd p = v" by (cases p) simp
    with True t ts show ?thesis by simp
  next
    case False
    with Cons.prems(2) have "map_of ofs key = Some v" by (cases p) simp
    from Cons.IH[OF r this] False ts show ?thesis by simp
  qed
qed

lemma concat_map_concat:
  "concat (map G (concat xss)) = concat (map (\<lambda>xs. concat (map G xs)) xss)"
  by (induction xss) simp_all

lemma not_isNode_scalar: "(\<forall>a. v \<noteq> Ref a) \<Longrightarrow> nodesIn h v = []"
  by (cases v) (simp_all add: nodesIn_def)

lemma elements_inside:
  assumes IH: "\<And>c u. reify j h (Ref c) = Some u \<Longrightarrow> isObject h c
      \<Longrightarrow> \<exists>vs. visits k' ch c q = Some vs \<and> inside (map fst vs) (cellsOf u)"
  shows "those (map (reify j h) xs) = Some us \<Longrightarrow>
     (\<forall>c \<in> set (refsOf (filter (isNode h) xs)). visits k' ch c q \<noteq> None)
     \<and> inside (concat (map (\<lambda>c. map fst (the (visits k' ch c q))) (refsOf (filter (isNode h) xs))))
          (concat (map cellsOf us))"
proof (induction xs arbitrary: us)
  case Nil
  then show ?case by (simp add: inside_refl)
next
  case (Cons x xs)
  from Cons.prems obtain u us' where
    u: "reify j h x = Some u" and r: "those (map (reify j h) xs) = Some us'"
    and us: "us = u # us'"
    by (auto simp del: those.simps simp: those_Cons_Some)
  note rest = Cons.IH[OF r]
  show ?case
  proof (cases "isNode h x")
    case False
    then have "refsOf (filter (isNode h) (x # xs)) = refsOf (filter (isNode h) xs)" by simp
    with rest us show ?thesis by (simp add: inside_append_right)
  next
    case True
    then obtain c where x: "x = Ref c" by (cases x) (simp_all add: isNode_def)
    from True x have o: "isObject h c" by (simp add: isNode_isObject)
    from IH[OF u[unfolded x] o] obtain vs where
      v: "visits k' ch c q = Some vs" and i: "inside (map fst vs) (cellsOf u)" by blast
    from True x have f: "refsOf (filter (isNode h) (x # xs)) = c # refsOf (filter (isNode h) xs)"
      by simp
    from rest v i us show ?thesis unfolding f by (simp add: inside_append)
  qed
qed

lemma nodesIn_inside:
  assumes IH: "\<And>j c u. j \<le> k \<Longrightarrow> reify j h (Ref c) = Some u \<Longrightarrow> isObject h c
      \<Longrightarrow> \<exists>vs. visits k' ch c q = Some vs \<and> inside (map fst vs) (cellsOf u)"
    and r: "reify k h v = Some u"
  shows "(\<forall>c \<in> set (nodesIn h v). visits k' ch c q \<noteq> None)
     \<and> inside (concat (map (\<lambda>c. map fst (the (visits k' ch c q))) (nodesIn h v))) (cellsOf u)"
proof -
  from r obtain j where k: "k = Suc j" by (cases k) auto
  from r[unfolded k] show ?thesis
  proof (cases rule: reify_Suc_cases)
    case scalar
    then show ?thesis by (simp add: not_isNode_scalar inside_Nil)
  next
    case (regexp b p f)
    then have "\<not> isObject h b" by (simp add: isObject_def)
    then have "\<not> isNode h (Ref b)" using isNode_isObject by blast
    with regexp show ?thesis by (simp add: nodesIn_def inside_Nil)
  next
    case (array b xs us)
    have n: "nodesIn h v = refsOf (filter (isNode h) xs)"
      using array(1,2) by (simp add: nodesIn_def)
    have "(\<forall>c \<in> set (refsOf (filter (isNode h) xs)). visits k' ch c q \<noteq> None)
     \<and> inside (concat (map (\<lambda>c. map fst (the (visits k' ch c q))) (refsOf (filter (isNode h) xs))))
          (concat (map cellsOf us))"
    proof (rule elements_inside[OF _ array(3)])
      fix c u assume "reify j h (Ref c) = Some u" "isObject h c"
      then show "\<exists>vs. visits k' ch c q = Some vs \<and> inside (map fst vs) (cellsOf u)"
        by (intro IH[of j]) (simp_all add: k)
    qed
    then show ?thesis unfolding n array(4) by (simp add: inside_Cons_right)
  next
    case (object b fs ts)
    show ?thesis
    proof (cases "isNode h (Ref b)")
      case False
      with object(1,2) show ?thesis by (simp add: nodesIn_def inside_Nil)
    next
      case True
      with object(1,2) have n: "nodesIn h v = [b]" by (simp add: nodesIn_def)
      from True have o: "isObject h b" by (rule isNode_isObject)
      from IH[OF order_refl r[unfolded object(1)] o] show ?thesis unfolding n by auto
    qed
  qed
qed


lemma getProp_Object:
  "lookup h a = Some (Object fs) \<Longrightarrow>
     getProp h a key = (case map_of fs key of Some v \<Rightarrow> v | None \<Rightarrow> Undefined)"
  by (simp add: getProp_def)

lemma childrenOf_nodesIn:
  "childrenOf keys h a =
     (case nodeTag h a of
        None \<Rightarrow> []
      | Some ty \<Rightarrow> concat (map (\<lambda>key. nodesIn h (getProp h a key)) (keys ty)))"
proof -
  have c: "candidates h a = (\<lambda>key. nodesIn h (getProp h a key))"
    by (intro ext) (rule candidates_nodesIn)
  show ?thesis unfolding childrenOf_def c by (rule refl)
qed

lemma visits_of_reify:
  assumes keys: "\<forall>ty. distinct (keys ty) \<and> ''parentNode'' \<notin> set (keys ty)"
  shows "reify d h (Ref a) = Some t \<Longrightarrow> isObject h a
     \<Longrightarrow> \<exists>vs. visits d (childrenOf keys h) a p = Some vs \<and> inside (map fst vs) (cellsOf t)"
proof (induction d arbitrary: a t p rule: less_induct)
  case (less d)
  define ch where "ch = childrenOf keys h"
  from less.prems(1) obtain k where d: "d = Suc k" by (cases d) auto
  have IH: "\<exists>vs. visits k ch c (Some a) = Some vs \<and> inside (map fst vs) (cellsOf u)"
    if "j \<le> k" "reify j h (Ref c) = Some u" "isObject h c" for j c u
  proof -
    from that(1) d have "j < d" by simp
    from less.IH[OF this that(2,3), of "Some a"] obtain vs where
      "visits j ch c (Some a) = Some vs" "inside (map fst vs) (cellsOf u)"
      unfolding ch_def by blast
    with visits_mono[OF _ that(1)] show ?thesis by blast
  qed
  define G where "G = (\<lambda>c. map fst (the (visits k ch c (Some a))))"
  from less.prems(1)[unfolded d] show ?case
  proof (cases rule: reify_Suc_cases)
    case scalar
    then show ?thesis by simp
  next
    case (regexp b q f)
    with less.prems(2) show ?thesis by (simp add: isObject_def)
  next
    case (array b xs ts)
    with less.prems(2) show ?thesis by (simp add: isObject_def)
  next
    case (object b fs ts)
    then have ab: "b = a" by simp
    note lk = object(2)[unfolded ab]
    define ks where "ks = map fst (ownFields fs)"
    have perkey: "(\<forall>c \<in> set (nodesIn h (getProp h a key)). visits k ch c (Some a) \<noteq> None)
        \<and> inside (concat (map G (nodesIn h (getProp h a key))))
             (case map_of (zip ks ts) key of Some u \<Rightarrow> cellsOf u | None \<Rightarrow> [])"
      if "key \<noteq> ''parentNode''" for key
    proof (cases "map_of fs key")
      case None
      then have "getProp h a key = Undefined" by (simp add: getProp_Object[OF lk])
      then show ?thesis by (simp add: nodesIn_def inside_Nil)
    next
      case (Some v)
      then have g: "getProp h a key = v" by (simp add: getProp_Object[OF lk])
      from Some that have "map_of (ownFields fs) key = Some v" by (simp add: map_of_ownFields)
      from reified_field[OF object(4) this] obtain u where
        m: "map_of (zip ks ts) key = Some u" and r: "reify k h v = Some u"
        unfolding ks_def by blast
      from nodesIn_inside[where k = k and k' = k and ch = ch and q = "Some a", OF IH r]
      show ?thesis unfolding g m G_def by simp
    qed
    have kids: "(\<forall>c \<in> set (ch a). visits k ch c (Some a) \<noteq> None)
        \<and> inside (concat (map G (ch a))) (concat (map (\<lambda>p. cellsOf (snd p)) (zip ks ts)))"
    proof (cases "nodeTag h a")
      case None
      then show ?thesis by (simp add: ch_def childrenOf_nodesIn inside_Nil)
    next
      case (Some ty)
      from keys have dk: "distinct (keys ty)" and np: "''parentNode'' \<notin> set (keys ty)"
        by simp_all
      have c: "ch a = concat (map (\<lambda>key. nodesIn h (getProp h a key)) (keys ty))"
        by (simp add: ch_def childrenOf_nodesIn Some)
      have ne: "key \<noteq> ''parentNode''" if "key \<in> set (keys ty)" for key
        using that np by auto
      have 1: "\<forall>c \<in> set (ch a). visits k ch c (Some a) \<noteq> None"
        unfolding c using perkey ne by auto
      have "inside (concat (map (\<lambda>key. concat (map G (nodesIn h (getProp h a key)))) (keys ty)))
          (concat (map (\<lambda>p. cellsOf (snd p)) (zip ks ts)))"
      proof (rule inside_over_keys[OF dk])
        fix key assume "key \<in> set (keys ty)"
        from perkey[OF ne[OF this]]
        show "inside (concat (map G (nodesIn h (getProp h a key))))
             (case map_of (zip ks ts) key of Some u \<Rightarrow> cellsOf u | None \<Rightarrow> [])" by simp
      qed
      then have 2: "inside (concat (map G (ch a))) (concat (map (\<lambda>p. cellsOf (snd p)) (zip ks ts)))"
        unfolding c concat_map_concat map_map comp_def .
      from 1 2 show ?thesis by simp
    qed
    define vss where "vss = map (\<lambda>c. the (visits k ch c (Some a))) (ch a)"
    have th: "those (map (\<lambda>c. visits k ch c (Some a)) (ch a)) = Some vss"
    proof (rule those_map_I)
      show "length vss = length (ch a)" by (simp add: vss_def)
      show "visits k ch (ch a ! i) (Some a) = Some (vss ! i)" if "i < length (ch a)" for i
      proof -
        from that have "ch a ! i \<in> set (ch a)" by simp
        with kids have "visits k ch (ch a ! i) (Some a) \<noteq> None" by blast
        with that show ?thesis by (auto simp: vss_def)
      qed
    qed
    have v: "visits d ch a p = Some ((a, p) # concat vss)"
      unfolding d by (simp add: th)
    have "map fst (concat vss) = concat (map G (ch a))"
      by (simp add: vss_def G_def map_concat comp_def)
    with kids have "inside (map fst ((a, p) # concat vss)) (cellsOf t)"
      unfolding object(5) ab ks_def[symmetric] by (simp add: inside_Cons)
    with v show ?thesis unfolding ch_def by blast
  qed
qed

lemma reify_relinked:
  assumes rl: "relinked h h'"
  shows "reify d h v = Some t \<Longrightarrow> reify d h' v = Some t"
proof (induction d arbitrary: v t)
  case 0
  then show ?case by simp
next
  case (Suc d)
  from Suc.prems show ?case
  proof (cases rule: reify_Suc_cases)
    case scalar
    then show ?thesis by simp
  next
    case (regexp a p f)
    from relinked_lookup[OF rl regexp(2)] have "lookup h' a = Some (RegExp p f)" by simp
    with regexp show ?thesis by simp
  next
    case (array a xs ts)
    from relinked_lookup[OF rl array(2)] have l: "lookup h' a = Some (Array xs)" by simp
    have "those (map (reify d h') xs) = Some ts"
    proof (rule those_map_I)
      show "length ts = length xs" by (rule those_map_nth(1)[OF array(3)])
      show "reify d h' (xs ! i) = Some (ts ! i)" if "i < length xs" for i
        by (rule Suc.IH[OF those_map_nth(2)[OF array(3) that]])
    qed
    with l array show ?thesis by simp
  next
    case (object a fs ts)
    from relinked_lookup[OF rl object(2)] obtain fs' where
      l: "lookup h' a = Some (Object fs')" and o: "ownFields fs' = ownFields fs"
      and d: "distinct (map fst fs') = distinct (map fst fs)"
      by auto
    have "those (map (reify d h') (map snd (ownFields fs))) = Some ts"
    proof (rule those_map_I)
      show "length ts = length (map snd (ownFields fs))" by (rule those_map_nth(1)[OF object(4)])
      show "reify d h' (map snd (ownFields fs) ! i) = Some (ts ! i)"
        if "i < length (map snd (ownFields fs))" for i
        by (rule Suc.IH[OF those_map_nth(2)[OF object(4) that]])
    qed
    with l o d object show ?thesis by (simp add: reify_Suc_Ref del: reify.simps)
  qed
qed

section \<open>The clone\<close>

lemma copied_of_shape:
  "shape t' = shape t \<Longrightarrow> (\<forall>a \<in> set (cellsOf t'). n \<le> a) \<Longrightarrow> copied n t t'"
proof (induction n t t' rule: copied.induct)
  case (1 n a fs t')
  from "1.prems"(1) obtain a' fs' where t': "t' = TObject a' fs'"
    and m: "map (\<lambda>p. (fst p, shape (snd p))) fs' = map (\<lambda>p. (fst p, shape (snd p))) fs"
    by (cases t') auto
  from m have l: "length fs' = length fs" by (rule map_eq_imp_length_eq)
  have k: "map fst fs' = map fst fs"
    using arg_cong[OF m, of "map fst"] by (simp add: comp_def)
  have s: "shape (snd (fs' ! i)) = shape (snd (fs ! i))" if "i < length fs" for i
    using arg_cong[OF m, of "\<lambda>zs. snd (zs ! i)"] that l by simp
  have "list_all2 (copied n) (map snd fs) (map snd fs')"
    unfolding list_all2_conv_all_nth
  proof (intro conjI allI impI)
    show "length (map snd fs) = length (map snd fs')" using l by simp
    fix i assume i: "i < length (map snd fs)"
    then have i': "i < length fs" "i < length fs'" using l by simp_all
    have c: "\<forall>b \<in> set (cellsOf (snd (fs' ! i))). n \<le> b"
    proof
      fix b assume "b \<in> set (cellsOf (snd (fs' ! i)))"
      with i' have "b \<in> set (cellsOf t')" unfolding t' by (auto intro!: bexI[of _ "fs' ! i"])
      with "1.prems"(2) show "n \<le> b" by blast
    qed
    have "copied n (snd (fs ! i)) (snd (fs' ! i))"
      by (rule "1.IH"[OF t' _ _ s[OF i'(1)] c]) (use i' in auto)
    with i' show "copied n (map snd fs ! i) (map snd fs' ! i)" by simp
  qed
  with t' k "1.prems"(2) show ?case by simp
next
  case (2 n a xs t')
  from "2.prems"(1) obtain a' xs' where t': "t' = TArray a' xs'"
    and m: "map shape xs' = map shape xs"
    by (cases t') auto
  from m have l: "length xs' = length xs" by (rule map_eq_imp_length_eq)
  have s: "shape (xs' ! i) = shape (xs ! i)" if "i < length xs" for i
    using arg_cong[OF m, of "\<lambda>zs. zs ! i"] that l by simp
  have "list_all2 (copied n) xs xs'"
    unfolding list_all2_conv_all_nth
  proof (intro conjI allI impI)
    show "length xs = length xs'" using l by simp
    fix i assume i: "i < length xs"
    then have i': "i < length xs'" using l by simp
    have c: "\<forall>b \<in> set (cellsOf (xs' ! i)). n \<le> b"
    proof
      fix b assume "b \<in> set (cellsOf (xs' ! i))"
      with i' have "b \<in> set (cellsOf t')" unfolding t' by (auto intro!: bexI[of _ "xs' ! i"])
      with "2.prems"(2) show "n \<le> b" by blast
    qed
    show "copied n (xs ! i) (xs' ! i)"
      by (rule "2.IH"[OF t' _ _ s[OF i] c]) (use i i' in auto)
  qed
  with t' "2.prems"(2) show ?case by simp
qed (auto elim: shape.elims)

lemma reify_Ref_object:
  assumes "reify d h (Ref a) = Some t" and "isObject h a"
  shows "\<exists>fs. t = TObject a fs"
proof -
  from assms(1) obtain k where d: "d = Suc k" by (cases d) auto
  from assms(2) obtain fs where "lookup h a = Some (Object fs)"
    by (auto simp: isObject_def split: option.splits cell.splits)
  with assms(1) show ?thesis unfolding d by (auto simp: reify_Suc_Ref split: if_splits)
qed

lemma reify_TObject:
  assumes "reify d h v = Some (TObject a fs)"
  shows "v = Ref a \<and> isObject h a"
proof -
  from assms obtain k where d: "d = Suc k" by (cases d) auto
  from assms[unfolded d] show ?thesis
    by (cases rule: reify_Suc_cases) (auto simp: isObject_def)
qed

lemma regexpsOf_shape: "regexpsOf (shape t) = regexpsOf t"
  by (induction t rule: shape.induct) (simp_all add: comp_def cong: map_cong)

lemma inside_subset: "inside xs ys \<Longrightarrow> set xs \<subseteq> set ys"
proof
  fix x assume i: "inside xs ys" and x: "x \<in> set xs"
  then have "0 < count_list xs x" using count_list_0_iff[of xs x] by simp
  moreover from i have "count_list xs x \<le> count_list ys x" by (simp add: inside_def)
  ultimately have "0 < count_list ys x" by simp
  then show "x \<in> set ys" using count_list_0_iff[of ys x] by auto
qed

lemma keys_fold_assign:
  "set (map fst (fold (\<lambda>p c. assign c (fst p) (snd p)) kvs c))
     = set (map fst c) \<union> set (map fst kvs)"
proof (induction kvs arbitrary: c)
  case Nil
  then show ?case by simp
next
  case (Cons p kvs)
  show ?case using Cons.IH[of "assign c (fst p) (snd p)"] keys_assign[of c "fst p" "snd p"]
    by auto
qed

lemma cloneRecursive_skips_parent:
  assumes "cloneRecursive d h v = Returns (h', Ref c)"
  shows "\<not> hasProp h' c ''parentNode''"
proof -
  from assms obtain k where d: "d = Suc k" by (cases d) auto
  from assms have v: "v \<noteq> Null" unfolding d by (auto split: if_splits)
  from assms v obtain props where p: "ownProperties h v = Inr props"
    unfolding d by (auto split: sum.splits)
  from assms v p obtain h1 copy where
    c: "cloneProperties (cloneRecursive k) h props [] = Returns (h1, copy)"
    and r: "h' = h1 @ [Object copy]" "c = length h1"
    unfolding d by (auto simp: alloc_def split: outcome.splits)
  from c obtain ys where
    copy: "copy = fold (\<lambda>p c. assign c (fst p) (snd p)) (zip (map fst (ownFields props)) ys) []"
    unfolding cloneProperties_mapClone by (auto split: outcome.splits)
  have "set (map fst copy) \<subseteq> set (map fst (ownFields props))"
    unfolding copy keys_fold_assign using set_zip_leftD by fastforce
  moreover have "''parentNode'' \<notin> set (map fst (ownFields props))"
    by (auto simp: ownFields_def)
  ultimately have "''parentNode'' \<notin> set (map fst copy)" by blast
  then show ?thesis unfolding r by (simp add: hasProp_def lookup_def)
qed

lemma clone_copied:
  assumes keys: "\<forall>ty. distinct (keys ty) \<and> ''parentNode'' \<notin> set (keys ty)"
    and tree: "reify d h (Ref r) = Some t"
    and node: "isObject h r"
    and plain: "plain t"
  shows "\<exists>e h' c t' vs.
        cloneRecursive d h (Ref r) = Returns (h @ e, Ref c)
      \<and> clone d keys h (Ref r) = Returns (h', c)
      \<and> reify d h' (Ref c) = Some t'
      \<and> shape t' = shape t
      \<and> distinct (cellsOf t')
      \<and> set (cellsOf t') = {length h ..< length h + length e}
      \<and> length h' = length h + length e
      \<and> (\<forall>a. a \<notin> set (cellsOf t') \<longrightarrow> lookup h' a = lookup (h @ e) a)
      \<and> visits d (childrenOf keys h') c None = Some vs
      \<and> distinct (map fst vs)
      \<and> fst ` set vs \<subseteq> set (cellsOf t')
      \<and> getProp h' c ''parentNode'' = Ref c
      \<and> (\<forall>p \<in> fst ` set vs. \<forall>n \<in> set (childrenOf keys h' p).
            n \<in> fst ` set vs \<and> getProp h' n ''parentNode'' = Ref p)
      \<and> (\<forall>n \<in> fst ` set vs. n \<noteq> c \<longrightarrow>
            (\<exists>p \<in> fst ` set vs. n \<in> set (childrenOf keys h' p)))"
proof -
  from reify_Ref_object[OF tree node] obtain fs where t: "t = TObject r fs" ..
  then have n: "isNodeOrNull t" by simp
  from cloneRecursive_copied[OF tree n plain le_refl] obtain e v' t' where
    cr: "cloneRecursive d h (Ref r) = Returns (h @ e, v')"
    and r1: "reify d (h @ e) v' = Some t'"
    and sh: "shape t' = shape t"
    and di: "distinct (cellsOf t')"
    and ce: "set (cellsOf t') = {length h ..< length h + length e}"
    by (elim exE conjE)
  from sh t obtain c fs' where t': "t' = TObject c fs'" by (cases t') auto
  from reify_TObject[OF r1[unfolded t']] have v': "v' = Ref c" and o: "isObject (h @ e) c"
    by simp_all
  from visits_of_reify[OF keys r1[unfolded v'] o, of None] obtain vs where
    vs: "visits d (childrenOf keys (h @ e)) c None = Some vs"
    and ins: "inside (map fst vs) (cellsOf t')"
    by (elim exE conjE)
  have dv: "distinct (map fst vs)" by (rule inside_distinct[OF ins di])
  have sub: "fst ` set vs \<subseteq> set (cellsOf t')" using inside_subset[OF ins] by simp
  from keys have k': "\<forall>ty. ''parentNode'' \<notin> set (keys ty)" by simp
  from parentize_tree[OF k' vs dv o] obtain h' where
    1: "parentizeAst d keys (h @ e) c = Returns (h', c)"
    and 2: "getProp h' c ''parentNode'' = Ref c"
    and 3: "\<forall>p \<in> fst ` set vs. \<forall>n \<in> set (childrenOf keys h' p).
            n \<in> fst ` set vs \<and> getProp h' n ''parentNode'' = Ref p"
    and 4: "\<forall>n \<in> fst ` set vs. n \<noteq> c \<longrightarrow>
            (\<exists>p \<in> fst ` set vs. n \<in> set (childrenOf keys h' p))"
    and 5: "childrenOf keys h' = childrenOf keys (h @ e)"
    and 6: "length h' = length (h @ e)"
    and 8: "\<forall>a. a \<notin> fst ` set vs \<longrightarrow> lookup h' a = lookup (h @ e) a"
    and 9: "relinked (h @ e) h'"
    by (elim exE conjE)
  have a: "cloneRecursive d h (Ref r) = Returns (h @ e, Ref c)" using cr v' by simp
  have b: "clone d keys h (Ref r) = Returns (h', c)" using a 1 by (simp add: clone_def)
  have c: "reify d h' (Ref c) = Some t'" using reify_relinked[OF 9 r1] v' by simp
  have f: "\<forall>a. a \<notin> set (cellsOf t') \<longrightarrow> lookup h' a = lookup (h @ e) a"
    using 8 sub by blast
  have g: "visits d (childrenOf keys h') c None = Some vs" using vs 5 by simp
  have l: "length h' = length h + length e" using 6 by simp
  show ?thesis
    by (rule exI[of _ e], rule exI[of _ h'], rule exI[of _ c], rule exI[of _ t'],
        rule exI[of _ vs], intro conjI)
      (rule a b c sh di ce l f g dv sub 2 3 4)+
qed

lemma sampleProgram_reify:
  "reify 5 (fst sampleProgram) (Ref 3) =
     Some (TObject 3
       [(''type'', TStr ''Program''),
        (''body'', TArray 2
           [TObject 1
              [(''type'', TStr ''ExpressionStatement''),
               (''expression'', TObject 0
                  [(''type'', TStr ''Literal''), (''value'', TNum 31),
                   (''raw'', TStr ''0x1F'')])]]),
        (''sourceType'', TStr ''script'')])"
proof -
  have 5: "(5::nat) = Suc (Suc (Suc (Suc (Suc 0))))" by simp
  show ?thesis unfolding 5 by (simp add: sampleProgram_def lookup_def ownFields_def)
qed

text \<open>
  On trees whose sequences hold nodes or \<open>null\<close> the clone is deep-equal to the
  source. Let the store hold, below the node \<open>r\<close>, such a tree:
  read back without the \<open>parentNode\<close> properties it is the tree \<open>t\<close>, whose
  sequences hold nodes or \<open>null\<close>. Then \<open>clone\<close> returns a node \<open>c\<close> whose
  tree \<open>t'\<close>, read the same way, equals \<open>t\<close> up to the identities of objects and
  arrays. Every object and array of \<open>t'\<close> is a new cell, none is met twice, none is a
  cell of \<open>t\<close>. The walk from \<open>c\<close> visits nodes of the copy only; the
  \<open>parentNode\<close> of \<open>c\<close> is \<open>c\<close>, the \<open>parentNode\<close> of every child of every
  visited node is that node, and every visited node other than \<open>c\<close> is such a child.
  (The table of child properties lists no property twice and does not list
  \<open>parentNode\<close>; \<open>d\<close> bounds the depth, and any larger bound does as well.)
\<close>

theorem clone_deep_equal:
  assumes keys: "\<forall>ty. distinct (keys ty) \<and> ''parentNode'' \<notin> set (keys ty)"
    and tree: "reify d h (Ref r) = Some t"
    and node: "isObject h r"
    and plain: "plain t"
  shows "\<exists>h' c t' vs.
        clone d keys h (Ref r) = Returns (h', c)
      \<and> reify d h' (Ref c) = Some t'
      \<and> shape t' = shape t
      \<and> distinct (cellsOf t')
      \<and> (\<forall>a \<in> set (cellsOf t'). length h \<le> a)
      \<and> set (cellsOf t') \<inter> set (cellsOf t) = {}
      \<and> visits d (childrenOf keys h') c None = Some vs
      \<and> distinct (map fst vs)
      \<and> fst ` set vs \<subseteq> set (cellsOf t')
      \<and> getProp h' c ''parentNode'' = Ref c
      \<and> (\<forall>p \<in> fst ` set vs. \<forall>n \<in> set (childrenOf keys h' p).
            n \<in> fst ` set vs \<and> getProp h' n ''parentNode'' = Ref p)
      \<and> (\<forall>n \<in> fst ` set vs. n \<noteq> c \<longrightarrow>
            (\<exists>p \<in> fst ` set vs. n \<in> set (childrenOf keys h' p)))"
proof -
  from clone_copied[OF keys tree node plain] obtain e h' c t' vs where
    cr: "cloneRecursive d h (Ref r) = Returns (h @ e, Ref c)"
    and 1: "clone d keys h (Ref r) = Returns (h', c)"
    and 2: "reify d h' (Ref c) = Some t'"
    and 3: "shape t' = shape t"
    and 4: "distinct (cellsOf t')"
    and ce: "set (cellsOf t') = {length h ..< length h + length e}"
    and len: "length h' = length h + length e"
    and fr: "\<forall>a. a \<notin> set (cellsOf t') \<longrightarrow> lookup h' a = lookup (h @ e) a"
    and 7: "visits d (childrenOf keys h') c None = Some vs"
    and 8: "distinct (map fst vs)"
    and 9: "fst ` set vs \<subseteq> set (cellsOf t')"
    and 10: "getProp h' c ''parentNode'' = Ref c"
    and 11: "\<forall>p \<in> fst ` set vs. \<forall>n \<in> set (childrenOf keys h' p).
            n \<in> fst ` set vs \<and> getProp h' n ''parentNode'' = Ref p"
    and 12: "\<forall>n \<in> fst ` set vs. n \<noteq> c \<longrightarrow>
            (\<exists>p \<in> fst ` set vs. n \<in> set (childrenOf keys h' p))"
    by (elim exE conjE)
  have 5: "\<forall>a \<in> set (cellsOf t'). length h \<le> a" unfolding ce by simp
  have 6: "set (cellsOf t') \<inter> set (cellsOf t) = {}"
  proof (rule ccontr)
    assume "set (cellsOf t') \<inter> set (cellsOf t) \<noteq> {}"
    then obtain a where a: "a \<in> set (cellsOf t')" "a \<in> set (cellsOf t)" by auto
    from reify_bound[OF tree, of a] a(2) have "a < length h" by simp
    with 5 a(1) show False by fastforce
  qed
  show ?thesis
    by (intro exI[of _ h'] exI[of _ c] exI[of _ t'] exI[of _ vs] conjI)
      (rule 1 2 3 4 5 6 7 8 9 10 11 12)+
qed

theorem clone_deep_equal_witness:
  "\<exists>h' c t'. clone 5 sampleKeys (fst sampleProgram) (Ref 3) = Returns (h', c)
     \<and> reify 5 h' (Ref c) = Some t'
     \<and> shape t' =
         TObject 0
           [(''type'', TStr ''Program''),
            (''body'', TArray 0
               [TObject 0
                  [(''type'', TStr ''ExpressionStatement''),
                   (''expression'', TObject 0
                      [(''type'', TStr ''Literal''), (''value'', TNum 31),
                       (''raw'', TStr ''0x1F'')])]]),
            (''sourceType'', TStr ''script'')]
     \<and> distinct (cellsOf t')
     \<and> getProp h' c ''parentNode'' = Ref c"
proof -
  define h where "h = fst sampleProgram"
  define t where "t = TObject 3
       [(''type'', TStr ''Program''),
        (''body'', TArray 2
           [TObject 1
              [(''type'', TStr ''ExpressionStatement''),
               (''expression'', TObject 0
                  [(''type'', TStr ''Literal''), (''value'', TNum 31),
                   (''raw'', TStr ''0x1F'')])]]),
        (''sourceType'', TStr ''script'')]"
  have k: "\<forall>ty. distinct (sampleKeys ty) \<and> ''parentNode'' \<notin> set (sampleKeys ty)"
    by (simp add: sampleKeys_def)
  have r: "reify 5 h (Ref 3) = Some t" unfolding h_def t_def by (rule sampleProgram_reify)
  have o: "isObject h 3" by (simp add: h_def sampleProgram_def isObject_def lookup_def)
  have p: "plain t" by (simp add: t_def)
  from clone_deep_equal[OF k r o p] obtain h' c t' vs where
    1: "clone 5 sampleKeys h (Ref 3) = Returns (h', c)"
    and 2: "reify 5 h' (Ref c) = Some t'"
    and 3: "shape t' = shape t"
    and 4: "distinct (cellsOf t')"
    and "\<forall>a \<in> set (cellsOf t'). length h \<le> a"
    and "set (cellsOf t') \<inter> set (cellsOf t) = {}"
    and "visits 5 (childrenOf sampleKeys h') c None = Some vs"
    and "distinct (map fst vs)"
    and "fst ` set vs \<subseteq> set (cellsOf t')"
    and 5: "getProp h' c ''parentNode'' = Ref c"
    and "\<forall>p \<in> fst ` set vs. \<forall>n \<in> set (childrenOf sampleKeys h' p).
            n \<in> fst ` set vs \<and> getProp h' n ''parentNode'' = Ref p"
    and "\<forall>n \<in> fst ` set vs. n \<noteq> c \<longrightarrow>
            (\<exists>p \<in> fst ` set vs. n \<in> set (childrenOf sampleKeys h' p))"
    by (elim exE conjE)
  have s: "shape t =
         TObject 0
           [(''type'', TStr ''Program''),
            (''body'', TArray 0
               [TObject 0
                  [(''type'', TStr ''ExpressionStatement''),
                   (''expression'', TObject 0
                      [(''type'', TStr ''Literal''), (''value'', TNum 31),
                       (''raw'', TStr ''0x1F'')])]]),
            (''sourceType'', TStr ''script'')]"
    by (simp add: t_def)
  show ?thesis
    unfolding h_def[symmetric]
    by (intro exI[of _ h'] exI[of _ c] exI[of _ t'] conjI) (rule 1 2 3[unfolded s] 4 5)+
qed

lemma regexpsOf_same_shape:
  assumes "shape t' = shape t"
  shows "regexpsOf t' = regexpsOf t"
  using regexpsOf_shape[of t'] regexpsOf_shape[of t] assms by simp

lemma sampleArray_reify:
  "reify 5 (fst sampleArray) (Ref 4) =
     Some (TObject 4
       [(''type'', TStr ''ArrayExpression''),
        (''elements'', TArray 3
           [TObject 2
              [(''type'', TStr ''Literal''), (''value'', TRegExp 0 ''a+'' ''g''),
               (''raw'', TStr ''/a+/g''),
               (''regex'', TObject 1 [(''pattern'', TStr ''a+''), (''flags'', TStr ''g'')])],
            TNull])])"
proof -
  have 5: "(5::nat) = Suc (Suc (Suc (Suc (Suc 0))))" by simp
  show ?thesis unfolding 5 by (simp add: sampleArray_def lookup_def ownFields_def)
qed

text \<open>
  On trees whose sequences hold nodes or \<open>null\<close> the copy follows the rule of the
  cloner. Let the store hold, below the node \<open>r\<close>, such a tree:
  read back without the \<open>parentNode\<close> properties it is the tree \<open>t\<close>, whose
  sequences hold nodes or \<open>null\<close>. Then \<open>cloneRecursive\<close> returns a new object
  without a \<open>parentNode\<close>, which \<open>clone\<close> then sets. The tree \<open>t'\<close> of the
  copy is related to the tree \<open>t\<close> of the source by the rule \<open>copied\<close>: the keys of
  every object are those of the source without \<open>parentNode\<close>, in order; \<open>null\<close>, a
  regular expression (the same address) and a scalar are the same; a sequence is a new
  array of the elements copied by the rule; a structured value is a new object copied by
  the rule. The cells of the source store are as before. Whatever is then done to the
  objects and arrays of the copy, every cell of the source store and the tree read from
  \<open>r\<close> stay the same; whatever is done to the objects and arrays of the source tree,
  the tree read from the copy stays the same.
\<close>

theorem cloneRecursive_field_rule:
  assumes keys: "\<forall>ty. distinct (keys ty) \<and> ''parentNode'' \<notin> set (keys ty)"
    and tree: "reify d h (Ref r) = Some t"
    and node: "isObject h r"
    and plain: "plain t"
  shows "\<exists>e h' c t'.
        cloneRecursive d h (Ref r) = Returns (h @ e, Ref c)
      \<and> \<not> hasProp (h @ e) c ''parentNode''
      \<and> clone d keys h (Ref r) = Returns (h', c)
      \<and> getProp h' c ''parentNode'' = Ref c
      \<and> reify d h' (Ref c) = Some t'
      \<and> copied (length h) t t'
      \<and> (\<forall>a < length h. lookup h' a = lookup h a)
      \<and> (\<forall>h''. (\<forall>a. a \<notin> set (cellsOf t') \<longrightarrow> lookup h'' a = lookup h' a)
            \<longrightarrow> (\<forall>a < length h. lookup h'' a = lookup h a)
              \<and> reify d h'' (Ref r) = Some t)
      \<and> (\<forall>h''. (\<forall>a. a \<notin> set (cellsOf t) \<longrightarrow> lookup h'' a = lookup h' a)
            \<longrightarrow> reify d h'' (Ref c) = Some t')"
proof -
  from clone_copied[OF keys tree node plain] obtain e h' c t' vs where
    cr: "cloneRecursive d h (Ref r) = Returns (h @ e, Ref c)"
    and cl: "clone d keys h (Ref r) = Returns (h', c)"
    and r': "reify d h' (Ref c) = Some t'"
    and sh: "shape t' = shape t"
    and di: "distinct (cellsOf t')"
    and ce: "set (cellsOf t') = {length h ..< length h + length e}"
    and len: "length h' = length h + length e"
    and fr: "\<forall>a. a \<notin> set (cellsOf t') \<longrightarrow> lookup h' a = lookup (h @ e) a"
    and "visits d (childrenOf keys h') c None = Some vs"
    and "distinct (map fst vs)"
    and "fst ` set vs \<subseteq> set (cellsOf t')"
    and pc: "getProp h' c ''parentNode'' = Ref c"
    and "\<forall>p \<in> fst ` set vs. \<forall>n \<in> set (childrenOf keys h' p).
            n \<in> fst ` set vs \<and> getProp h' n ''parentNode'' = Ref p"
    and "\<forall>n \<in> fst ` set vs. n \<noteq> c \<longrightarrow>
            (\<exists>p \<in> fst ` set vs. n \<in> set (childrenOf keys h' p))"
    by (elim exE conjE)
  have skip: "\<not> hasProp (h @ e) c ''parentNode''" by (rule cloneRecursive_skips_parent[OF cr])
  have new: "\<forall>a \<in> set (cellsOf t'). length h \<le> a" unfolding ce by simp
  have cp: "copied (length h) t t'" by (rule copied_of_shape[OF sh new])
  have old: "lookup h' a = lookup h a" if "a < length h" for a
  proof -
    from that new have "a \<notin> set (cellsOf t')" by fastforce
    with fr have "lookup h' a = lookup (h @ e) a" by blast
    with that show ?thesis by (simp add: lookup_def nth_append)
  qed
  have src: "a < length h" if "a \<in> set (cellsOf t) \<union> set (regexpsOf t)" for a
    by (rule reify_bound[OF tree that])
  have i1: "(\<forall>a < length h. lookup h2 a = lookup h a) \<and> reify d h2 (Ref r) = Some t"
    if m: "\<forall>a. a \<notin> set (cellsOf t') \<longrightarrow> lookup h2 a = lookup h' a" for h2
  proof -
    have o: "lookup h2 a = lookup h a" if "a < length h" for a
    proof -
      from that new have "a \<notin> set (cellsOf t')" by fastforce
      with m have "lookup h2 a = lookup h' a" by blast
      with old[OF that] show ?thesis by simp
    qed
    have "reify d h2 (Ref r) = Some t"
    proof (rule reify_local[OF tree])
      fix a assume "a \<in> set (cellsOf t) \<union> set (regexpsOf t)"
      from o[OF src[OF this]] show "lookup h2 a = lookup h a" .
    qed
    with o show ?thesis by blast
  qed
  have i2: "reify d h2 (Ref c) = Some t'"
    if m: "\<forall>a. a \<notin> set (cellsOf t) \<longrightarrow> lookup h2 a = lookup h' a" for h2
  proof (rule reify_local[OF r'])
    fix a assume a: "a \<in> set (cellsOf t') \<union> set (regexpsOf t')"
    have "a \<notin> set (cellsOf t)"
    proof
      assume c: "a \<in> set (cellsOf t)"
      then have l: "a < length h" using src by blast
      with new have "a \<notin> set (cellsOf t')" by fastforce
      with a have "a \<in> set (regexpsOf t)" by (simp add: regexpsOf_same_shape[OF sh])
      with reify_kinds[OF tree] c show False by fastforce
    qed
    with m show "lookup h2 a = lookup h' a" by blast
  qed
  show ?thesis
  proof (rule exI[of _ e], rule exI[of _ h'], rule exI[of _ c], rule exI[of _ t'], intro conjI)
    show "\<forall>a < length h. lookup h' a = lookup h a" using old by blast
    show "\<forall>h''. (\<forall>a. a \<notin> set (cellsOf t') \<longrightarrow> lookup h'' a = lookup h' a)
            \<longrightarrow> (\<forall>a < length h. lookup h'' a = lookup h a)
              \<and> reify d h'' (Ref r) = Some t"
      using i1 by blast
    show "\<forall>h''. (\<forall>a. a \<notin> set (cellsOf t) \<longrightarrow> lookup h'' a = lookup h' a)
            \<longrightarrow> reify d h'' (Ref c) = Some t'"
      using i2 by blast
  qed (rule cr skip cl pc r' cp)+
qed

theorem cloneRecursive_field_rule_witness:
  "\<exists>e h' c t'.
       cloneRecursive 5 (fst sampleArray) (Ref 4) = Returns (fst sampleArray @ e, Ref c)
     \<and> \<not> hasProp (fst sampleArray @ e) c ''parentNode''
     \<and> clone 5 sampleKeys (fst sampleArray) (Ref 4) = Returns (h', c)
     \<and> getProp h' c ''parentNode'' = Ref c
     \<and> reify 5 h' (Ref c) = Some t'
     \<and> copied 5
          (TObject 4
             [(''type'', TStr ''ArrayExpression''),
              (''elements'', TArray 3
                 [TObject 2
                    [(''type'', TStr ''Literal''), (''value'', TRegExp 0 ''a+'' ''g''),
                     (''raw'', TStr ''/a+/g''),
                     (''regex'', TObject 1
                        [(''pattern'', TStr ''a+''), (''flags'', TStr ''g'')])],
                  TNull])])
          t'"
proof -
  define h where "h = fst sampleArray"
  define t where "t = TObject 4
       [(''type'', TStr ''ArrayExpression''),
        (''elements'', TArray 3
           [TObject 2
              [(''type'', TStr ''Literal''), (''value'', TRegExp 0 ''a+'' ''g''),
               (''raw'', TStr ''/a+/g''),
               (''regex'', TObject 1 [(''pattern'', TStr ''a+''), (''flags'', TStr ''g'')])],
            TNull])]"
  have k: "\<forall>ty. distinct (sampleKeys ty) \<and> ''parentNode'' \<notin> set (sampleKeys ty)"
    by (simp add: sampleKeys_def)
  have r: "reify 5 h (Ref 4) = Some t" unfolding h_def t_def by (rule sampleArray_reify)
  have o: "isObject h 4" by (simp add: h_def sampleArray_def isObject_def lookup_def)
  have p: "plain t" by (simp add: t_def)
  have l: "length h = 5" by (simp add: h_def sampleArray_def)
  from cloneRecursive_field_rule[OF k r o p] obtain e h' c t' where
    1: "cloneRecursive 5 h (Ref 4) = Returns (h @ e, Ref c)"
    and 2: "\<not> hasProp (h @ e) c ''parentNode''"
    and 3: "clone 5 sampleKeys h (Ref 4) = Returns (h', c)"
    and 4: "getProp h' c ''parentNode'' = Ref c"
    and 5: "reify 5 h' (Ref c) = Some t'"
    and 6: "copied (length h) t t'"
    and "\<forall>a < length h. lookup h' a = lookup h a"
    and "\<forall>h''. (\<forall>a. a \<notin> set (cellsOf t') \<longrightarrow> lookup h'' a = lookup h' a)
            \<longrightarrow> (\<forall>a < length h. lookup h'' a = lookup h a)
              \<and> reify 5 h'' (Ref 4) = Some t"
    and "\<forall>h''. (\<forall>a. a \<notin> set (cellsOf t) \<longrightarrow> lookup h'' a = lookup h' a)
            \<longrightarrow> reify 5 h'' (Ref c) = Some t'"
    by (elim exE conjE)
  show ?thesis
    unfolding h_def[symmetric] t_def[symmetric]
    by (rule exI[of _ e], rule exI[of _ h'], rule exI[of _ c], rule exI[of _ t'], intro conjI)
      (rule 1 2 3 4 5 6[unfolded l])+
qed

section \<open>Remarks\<close>

text \<open>The texts of the nodes are concatenated in the order of the sequence.\<close>

lemma convertStructureToCode_concat:
  "convertStructureToCode generate h nodes =
     concat (map (generate \<lparr>verbatim = None, sourceMapWithCode = True\<rparr> h) nodes)"
proof -
  have "foldl (\<lambda>code node.
                 code @ generate \<lparr>verbatim = None, sourceMapWithCode = True\<rparr> h node)
          acc nodes
          = acc @ concat (map (generate \<lparr>verbatim = None, sourceMapWithCode = True\<rparr> h) nodes)"
    for acc
    by (induction nodes arbitrary: acc) simp_all
  then show ?thesis by (simp add: convertStructureToCode_def)
qed

section \<open>Sequences of scalars\<close>

text \<open>
  Claim C1. The identifier \<open>{ type: 'Identifier', name: 'x', range: [0, 5] }\<close> is a
  node whose \<open>range\<close> is a sequence of two numbers. For every depth bound from 3 on,
  \<open>clone\<close> returns a copy whose \<open>range\<close> is a sequence of two objects without
  properties. Read back without parent links, the copy is not the source up to object
  identity: the clone is not deep-equal to the tree.
\<close>

theorem clone_range_not_deep_equal:
  "clone (Suc (Suc (Suc d))) sampleKeys (fst sampleRanged) (Ref 1) =
     Returns
       ([Array [Num 0, Num 5],
         Object [(''type'', Str ''Identifier''), (''name'', Str ''x''), (''range'', Ref 0)],
         Object [], Object [], Array [Ref 2, Ref 3],
         Object [(''type'', Str ''Identifier''), (''name'', Str ''x''), (''range'', Ref 4),
                 (''parentNode'', Ref 5)]],
        5)
   \<and> reify (Suc (Suc (Suc d))) (fst sampleRanged) (Ref 1) =
       Some (TObject 1 [(''type'', TStr ''Identifier''), (''name'', TStr ''x''),
                        (''range'', TArray 0 [TNum 0, TNum 5])])
   \<and> reify (Suc (Suc (Suc d)))
         [Array [Num 0, Num 5],
          Object [(''type'', Str ''Identifier''), (''name'', Str ''x''), (''range'', Ref 0)],
          Object [], Object [], Array [Ref 2, Ref 3],
          Object [(''type'', Str ''Identifier''), (''name'', Str ''x''), (''range'', Ref 4),
                  (''parentNode'', Ref 5)]]
         (Ref 5) =
       Some (TObject 5 [(''type'', TStr ''Identifier''), (''name'', TStr ''x''),
                        (''range'', TArray 4 [TObject 2 [], TObject 3 []])])
   \<and> shape (TObject 5 [(''type'', TStr ''Identifier''), (''name'', TStr ''x''),
                       (''range'', TArray 4 [TObject 2 [], TObject 3 []])])
       \<noteq> shape (TObject 1 [(''type'', TStr ''Identifier''), (''name'', TStr ''x''),
                           (''range'', TArray 0 [TNum 0, TNum 5])])"
proof (intro conjI)
  have c: "cloneRecursive (Suc (Suc (Suc d))) (fst sampleRanged) (Ref 1) =
     Returns
       ([Array [Num 0, Num 5],
         Object [(''type'', Str ''Identifier''), (''name'', Str ''x''), (''range'', Ref 0)],
         Object [], Object [], Array [Ref 2, Ref 3],
         Object [(''type'', Str ''Identifier''), (''name'', Str ''x''), (''range'', Ref 4)]],
        Ref 5)"
    by (simp add: sampleRanged_def ownProperties_def lookup_def cloneValue_def alloc_def)
  have k: "childrenOf sampleKeys h 5 = []"
    if "getProp h 5 ''type'' = Str ''Identifier''" for h
    using that by (simp add: childrenOf_def nodeTag_def sampleKeys_def)
  show "clone (Suc (Suc (Suc d))) sampleKeys (fst sampleRanged) (Ref 1) =
     Returns
       ([Array [Num 0, Num 5],
         Object [(''type'', Str ''Identifier''), (''name'', Str ''x''), (''range'', Ref 0)],
         Object [], Object [], Array [Ref 2, Ref 3],
         Object [(''type'', Str ''Identifier''), (''name'', Str ''x''), (''range'', Ref 4),
                 (''parentNode'', Ref 5)]],
        5)"
    unfolding clone_def c
    by (simp add: parentizeAst_def parentizeNode_def setProp_def lookup_def k getProp_def)
qed (simp_all add: sampleRanged_def lookup_def ownFields_def)

text \<open>
  Claim C4. On the identifier \<open>{ type: 'Identifier', name: 'x', range: [0, 5] }\<close>,
  \<open>cloneRecursive\<close> copies the sequence
  \<open>[0, 5]\<close> to a new array of two new objects without properties. The elements of
  a sequence go through \<open>cloneRecursive\<close> itself, which has a case for \<open>null\<close>
  and none for a scalar: called on the number 5 it returns a new empty object. The
  branch for the value of a property does copy the number 5 by value.
\<close>

theorem cloneRecursive_sequence_elements:
  "cloneRecursive (Suc (Suc (Suc d))) (fst sampleRanged) (Ref 1) =
     Returns
       (fst sampleRanged @
          [Object [], Object [], Array [Ref 2, Ref 3],
           Object [(''type'', Str ''Identifier''), (''name'', Str ''x''), (''range'', Ref 4)]],
        Ref 5)
   \<and> cloneValue (cloneRecursive (Suc d)) h (Num 5) = Returns (h, Num 5)
   \<and> cloneRecursive (Suc d) h (Num 5) = Returns (h @ [Object []], Ref (length h))"
  by (simp add: sampleRanged_def ownProperties_def lookup_def cloneValue_def alloc_def)

end
